theory Spec2Isabelle
  imports Main "HOL-Library.Word" "HOL-Library.Sublist"
begin

section \<open>JavaScript strings\<close>

text \<open>
  A JavaScript string is a sequence of 16-bit code units, and every string operation of
  \<^verbatim>\<open>gulpfile.js\<close> (regular expressions, \<^verbatim>\<open>replace\<close>, \<^verbatim>\<open>join\<close>, template literals)
  works on code units. \<open>js\<close> turns a literal of the theory into such a string.
\<close>

type_synonym code_unit = "16 word"
type_synonym jsstring = "code_unit list"

definition js :: "string \<Rightarrow> jsstring" where
  "js s = map of_char s"

text \<open>The backslash and the single quote, which a literal of the theory cannot hold.\<close>

abbreviation BSL :: code_unit where
  "BSL \<equiv> 0x5C"

abbreviation QUOTE :: code_unit where
  "QUOTE \<equiv> 0x27"

text \<open>
  The character classes of the regular expressions in the \<^verbatim>\<open>build-sw\<close> task:
  \<^verbatim>\<open>[\t ]\<close> is a tab or a space; \<^verbatim>\<open>\s\<close> is ECMAScript's WhiteSpace or
  LineTerminator; \<^verbatim>\<open>\S\<close> is its complement; \<^verbatim>\<open>^\<close> under the \<^verbatim>\<open>m\<close> flag looks
  for a LineTerminator before the position.
\<close>

definition is_blank :: "code_unit \<Rightarrow> bool" where
  "is_blank c \<longleftrightarrow> c = 0x09 \<or> c = 0x20"

definition is_line_terminator :: "code_unit \<Rightarrow> bool" where
  "is_line_terminator c \<longleftrightarrow> c = 0x0A \<or> c = 0x0D \<or> c = 0x2028 \<or> c = 0x2029"

definition is_space :: "code_unit \<Rightarrow> bool" where
  "is_space c \<longleftrightarrow>
     c = 0x09 \<or> c = 0x0B \<or> c = 0x0C \<or> c = 0x20 \<or> c = 0xA0 \<or> c = 0x1680 \<or>
     (0x2000 \<le> c \<and> c \<le> 0x200A) \<or> c = 0x202F \<or> c = 0x205F \<or> c = 0x3000 \<or>
     c = 0xFEFF \<or> is_line_terminator c"

definition non_space :: "code_unit \<Rightarrow> bool" where
  "non_space c \<longleftrightarrow> \<not> is_space c"

section \<open>The pattern language\<close>

text \<open>
  The regular expression of the \<^verbatim>\<open>build-sw\<close> task and the matchers that the task
  emits are ECMAScript patterns. This section gives the part of the pattern language
  that they use: characters, identity escapes, \<^verbatim>\<open>\t\<close> and \<^verbatim>\<open>\S\<close>, the dot,
  character classes that list their members, the two assertions, the greedy quantifiers,
  alternation, capturing and non-capturing groups.
  \<open>parse\<close> reads a pattern from left to right. It keeps the members of the character
  class it is in, if any, and one frame per open group: the finished alternatives of the
  group, the terms of the current alternative (both in reverse), and whether the last
  term may take a quantifier. A pattern outside this part of the language (a range or a
  negation in a class, a brace, a lazy quantifier, a lookahead, another escape, a slash
  or a LineTerminator, which cannot stand in a literal) has no parse.
\<close>

datatype rx = Eps | Chr code_unit | Dot | OneOf "code_unit list" | NonSpace | Bol | Eol
  | Seq rx rx | Alt rx rx | Star rx | Plus rx | Opt rx | Group rx

definition syntax_character :: "code_unit \<Rightarrow> bool" where
  "syntax_character c \<longleftrightarrow> c \<in> set (js ''^$'' @ BSL # js ''.*+?()[]{}|'')"

fun mk_seq :: "rx list \<Rightarrow> rx" where
  "mk_seq [] = Eps"
| "mk_seq [t] = t"
| "mk_seq (t # u # ts) = Seq t (mk_seq (u # ts))"

fun mk_alt :: "rx list \<Rightarrow> rx" where
  "mk_alt [] = Eps"
| "mk_alt [a] = a"
| "mk_alt (a # b # as) = Alt a (mk_alt (b # as))"

datatype group_kind = Capturing | NonCapturing

type_synonym frame = "rx list \<times> rx list \<times> bool"

definition close_frame :: "frame \<Rightarrow> rx" where
  "close_frame f = (case f of (as, ts, q) \<Rightarrow> mk_alt (rev (mk_seq (rev ts) # as)))"

fun parse ::
  "code_unit list option \<Rightarrow> frame \<Rightarrow> (group_kind \<times> frame) list \<Rightarrow> jsstring \<Rightarrow> rx option" where
  "parse cl f st [] = (if st = [] \<and> cl = None then Some (close_frame f) else None)"
| "parse (Some acc) (as, ts, q) st (c # cs) =
     (if c = 0x5D then parse None (as, OneOf (rev acc) # ts, True) st cs
      else if c = BSL then
        (case cs of
           [] \<Rightarrow> None
         | d # ds \<Rightarrow>
             if syntax_character d \<or> d = 0x2F then parse (Some (d # acc)) (as, ts, q) st ds
             else if d = 0x74 then parse (Some (0x09 # acc)) (as, ts, q) st ds
             else None)
      else if c = 0x2D \<or> (c = 0x5E \<and> acc = []) \<or> is_line_terminator c then None
      else parse (Some (c # acc)) (as, ts, q) st cs)"
| "parse None (as, ts, q) st (c # cs) =
     (if c = BSL then
        (case cs of
           [] \<Rightarrow> None
         | d # ds \<Rightarrow>
             if syntax_character d \<or> d = 0x2F then parse None (as, Chr d # ts, True) st ds
             else if d = 0x74 then parse None (as, Chr 0x09 # ts, True) st ds
             else if d = 0x53 then parse None (as, NonSpace # ts, True) st ds
             else None)
      else if c = 0x5B then parse (Some []) (as, ts, q) st cs
      else if c = 0x28 then
        (if prefix [0x3F, 0x3A] cs
         then parse None ([], [], False) ((NonCapturing, (as, ts, q)) # st) (drop 2 cs)
         else if prefix [0x3F] cs then None
         else parse None ([], [], False) ((Capturing, (as, ts, q)) # st) cs)
      else if c = 0x29 then
        (case st of
           [] \<Rightarrow> None
         | (kind, (as', ts', q')) # st' \<Rightarrow>
             parse None (as', (case kind of
                                 Capturing \<Rightarrow> Group (close_frame (as, ts, q))
                               | NonCapturing \<Rightarrow> close_frame (as, ts, q)) # ts', True) st' cs)
      else if c = 0x7C then parse None (mk_seq (rev ts) # as, [], False) st cs
      else if c = 0x2A \<or> c = 0x2B \<or> c = 0x3F then
        (case ts of
           [] \<Rightarrow> None
         | t # ts' \<Rightarrow>
             if q
             then parse None
                    (as, (if c = 0x2A then Star t else if c = 0x2B then Plus t else Opt t) # ts',
                     False) st cs
             else None)
      else if c = 0x2E then parse None (as, Dot # ts, True) st cs
      else if c = 0x5E then parse None (as, Bol # ts, False) st cs
      else if c = 0x24 then parse None (as, Eol # ts, False) st cs
      else if c = 0x5D \<or> c = 0x7B \<or> c = 0x7D \<or> c = 0x2F \<or> is_line_terminator c then None
      else parse None (as, Chr c # ts, True) st cs)"

definition parse_pattern :: "jsstring \<Rightarrow> rx option" where
  "parse_pattern p = parse None ([], [], False) [] p"

text \<open>
  The number of capture groups of a pattern. Groups are numbered by their opening
  parentheses, from left to right.
\<close>

primrec groups :: "rx \<Rightarrow> nat" where
  "groups Eps = 0"
| "groups (Chr c) = 0"
| "groups Dot = 0"
| "groups (OneOf cs) = 0"
| "groups NonSpace = 0"
| "groups Bol = 0"
| "groups Eol = 0"
| "groups (Seq a b) = groups a + groups b"
| "groups (Alt a b) = groups a + groups b"
| "groups (Star a) = groups a"
| "groups (Plus a) = groups a"
| "groups (Opt a) = groups a"
| "groups (Group a) = Suc (groups a)"

text \<open>
  Matching follows the continuation semantics of the ECMAScript specification. A matcher
  gets the position (the code unit before it, if any, and the text from it on), the
  captures so far and a continuation for the rest of the pattern, and gives the first
  result that the continuation accepts: the left alternative is tried before the right
  one, and one more iteration of a loop before leaving the loop. The captures are those
  of the path that succeeded. The dot matches any code unit but a LineTerminator;
  \<^verbatim>\<open>^\<close> holds at the start of the text and, under the \<^verbatim>\<open>m\<close> flag, after a
  LineTerminator; \<^verbatim>\<open>$\<close> holds at the end of the text and, under the \<^verbatim>\<open>m\<close> flag,
  before a LineTerminator. An iteration of a loop that matches the empty text is refused,
  so a loop makes at most as many iterations as code units are left. The number \<open>g\<close>
  is the index of the next capture group.
\<close>

type_synonym captures = "jsstring option list"

type_synonym 'r cont = "code_unit option \<Rightarrow> jsstring \<Rightarrow> captures \<Rightarrow> 'r option"

type_synonym 'r matcher = "code_unit option \<Rightarrow> jsstring \<Rightarrow> captures \<Rightarrow> 'r cont \<Rightarrow> 'r option"

definition or_else :: "'r option \<Rightarrow> 'r option \<Rightarrow> 'r option" where
  "or_else x y = (case x of None \<Rightarrow> y | Some r \<Rightarrow> Some r)"

definition char_matcher :: "(code_unit \<Rightarrow> bool) \<Rightarrow> 'r matcher" where
  "char_matcher P prev s caps k =
     (case s of [] \<Rightarrow> None | d # ds \<Rightarrow> if P d then k (Some d) ds caps else None)"

primrec star_loop :: "nat \<Rightarrow> 'r matcher \<Rightarrow> 'r matcher" where
  "star_loop 0 m prev s caps k = k prev s caps"
| "star_loop (Suc n) m prev s caps k =
     or_else
       (m prev s caps
          (\<lambda>prev' s' caps'.
             if length s' < length s then star_loop n m prev' s' caps' k else None))
       (k prev s caps)"

primrec rx_exec :: "bool \<Rightarrow> rx \<Rightarrow> nat \<Rightarrow> 'r matcher" where
  "rx_exec ml Eps g prev s caps k = k prev s caps"
| "rx_exec ml (Chr c) g prev s caps k = char_matcher (\<lambda>d. d = c) prev s caps k"
| "rx_exec ml Dot g prev s caps k = char_matcher (\<lambda>d. \<not> is_line_terminator d) prev s caps k"
| "rx_exec ml (OneOf cs) g prev s caps k = char_matcher (\<lambda>d. d \<in> set cs) prev s caps k"
| "rx_exec ml NonSpace g prev s caps k = char_matcher non_space prev s caps k"
| "rx_exec ml Bol g prev s caps k =
     (if prev = None \<or> (ml \<and> is_line_terminator (the prev)) then k prev s caps else None)"
| "rx_exec ml Eol g prev s caps k =
     (if s = [] \<or> (ml \<and> is_line_terminator (hd s)) then k prev s caps else None)"
| "rx_exec ml (Seq a b) g prev s caps k =
     rx_exec ml a g prev s caps (\<lambda>prev' s' caps'. rx_exec ml b (g + groups a) prev' s' caps' k)"
| "rx_exec ml (Alt a b) g prev s caps k =
     or_else (rx_exec ml a g prev s caps k) (rx_exec ml b (g + groups a) prev s caps k)"
| "rx_exec ml (Star a) g prev s caps k = star_loop (length s) (rx_exec ml a g) prev s caps k"
| "rx_exec ml (Plus a) g prev s caps k =
     rx_exec ml a g prev s caps
       (\<lambda>prev' s' caps'. star_loop (length s') (rx_exec ml a g) prev' s' caps' k)"
| "rx_exec ml (Opt a) g prev s caps k = or_else (rx_exec ml a g prev s caps k) (k prev s caps)"
| "rx_exec ml (Group a) g prev s caps k =
     rx_exec ml a (Suc g) prev s caps
       (\<lambda>prev' s' caps'. k prev' s' (caps'[g := Some (take (length s - length s') s)]))"

text \<open>
  One attempt of a pattern at a position: the captures, the code unit before the end of
  the match and the text after the match.
\<close>

definition exec ::
  "bool \<Rightarrow> rx \<Rightarrow> code_unit option \<Rightarrow> jsstring
     \<Rightarrow> (captures \<times> code_unit option \<times> jsstring) option" where
  "exec ml r prev s =
     rx_exec ml r 0 prev s (replicate (groups r) None) (\<lambda>prev' s' caps. Some (caps, prev', s'))"

text \<open>
  \<^verbatim>\<open>RegExp.prototype.test\<close> for a pattern without flags: the pattern is tried at every
  position of the text, from the first one on.
\<close>

definition rx_test :: "rx \<Rightarrow> jsstring \<Rightarrow> bool" where
  "rx_test r s =
     list_ex (\<lambda>i. exec False r (if i = 0 then None else Some (s ! (i - 1))) (drop i s) \<noteq> None)
       [0 ..< Suc (length s)]"

text \<open>
  \<^verbatim>\<open>String.prototype.replace\<close> with a global pattern and a function calls the function
  once per match, from left to right. After a match the scan goes on where the match
  ended, and one code unit further when the match was empty. This gives the captures of
  the matches in the order of the calls.
\<close>

function global_matches :: "bool \<Rightarrow> rx \<Rightarrow> code_unit option \<Rightarrow> jsstring \<Rightarrow> captures list" where
  "global_matches ml r prev [] =
     (case exec ml r prev [] of None \<Rightarrow> [] | Some (caps, prev', rest) \<Rightarrow> [caps])"
| "global_matches ml r prev (c # cs) =
     (case exec ml r prev (c # cs) of
        None \<Rightarrow> global_matches ml r (Some c) cs
      | Some (caps, prev', rest) \<Rightarrow>
          caps # (if length rest \<le> length cs then global_matches ml r prev' rest
                  else global_matches ml r (Some c) cs))"
  by pat_completeness auto
termination
  by (relation "measure (\<lambda>(ml, r, prev, s). length s)") auto

text \<open>
  A replacement text goes through ECMAScript's GetSubstitution: \<^verbatim>\<open>$$\<close> stands for a
  dollar sign, \<^verbatim>\<open>$&\<close> for the matched text, \<^verbatim>\<open>$`\<close> for the text before the match and
  \<^verbatim>\<open>$'\<close> for the text after it. The patterns it is used with here have no capture
  groups, so a dollar sign before a digit, and any other dollar sign, stands for itself.
\<close>

fun get_substitution :: "jsstring \<Rightarrow> jsstring \<Rightarrow> jsstring \<Rightarrow> jsstring \<Rightarrow> jsstring" where
  "get_substitution matched preceding following [] = []"
| "get_substitution matched preceding following [c] = [c]"
| "get_substitution matched preceding following (c # d # cs) =
     (if c = 0x24 \<and> d = 0x24 then 0x24 # get_substitution matched preceding following cs
      else if c = 0x24 \<and> d = 0x26 then matched @ get_substitution matched preceding following cs
      else if c = 0x24 \<and> d = 0x60 then preceding @ get_substitution matched preceding following cs
      else if c = 0x24 \<and> d = 0x27 then following @ get_substitution matched preceding following cs
      else c # get_substitution matched preceding following (d # cs))"

text \<open>
  \<^verbatim>\<open>String.prototype.replace\<close> with a pattern that has neither the \<^verbatim>\<open>m\<close> flag nor a
  capture group, and a replacement text. With the \<^verbatim>\<open>g\<close> flag every match is replaced,
  the scan going on as it does for a function; without it the first match only is
  replaced. \<open>preceding\<close> is the text before the position of the scan.
\<close>

function replace_regex ::
  "bool \<Rightarrow> rx \<Rightarrow> jsstring \<Rightarrow> jsstring \<Rightarrow> code_unit option \<Rightarrow> jsstring \<Rightarrow> jsstring" where
  "replace_regex global r replacement preceding prev [] =
     (case exec False r prev [] of
        None \<Rightarrow> []
      | Some m \<Rightarrow> get_substitution [] preceding [] replacement)"
| "replace_regex global r replacement preceding prev (c # cs) =
     (case exec False r prev (c # cs) of
        None \<Rightarrow> c # replace_regex global r replacement (preceding @ [c]) (Some c) cs
      | Some (caps, prev', rest) \<Rightarrow>
          get_substitution (take (Suc (length cs) - length rest) (c # cs)) preceding rest replacement
          @ (if \<not> global then rest
             else if length rest \<le> length cs
               then replace_regex global r replacement
                      (preceding @ take (Suc (length cs) - length rest) (c # cs)) prev' rest
               else c # replace_regex global r replacement (preceding @ [c]) (Some c) cs))"
  by pat_completeness auto
termination
  by (relation "measure (\<lambda>(global, r, replacement, preceding, prev, s). length s)") auto

text \<open>
  The same for the text of a pattern, from the start of the string. The patterns of the
  task all parse, as shown below, so the first branch is never taken.
\<close>

definition replace_source :: "bool \<Rightarrow> jsstring \<Rightarrow> jsstring \<Rightarrow> jsstring \<Rightarrow> jsstring" where
  "replace_source global source replacement s =
     (case parse_pattern source of
        None \<Rightarrow> s
      | Some r \<Rightarrow> replace_regex global r replacement [] None s)"

section \<open>The rule grammar\<close>

text \<open>
  The regular expression of the task,
  \<^verbatim>\<open>/^[\t ]*(\S+)[\t ]+(\S+)(?:[\t ]+(\S+))?/gm\<close>: the text between its slashes.
\<close>

definition rule_regex_source :: jsstring where
  "rule_regex_source =
     js ''^['' @ BSL # js ''t ]*('' @ BSL # js ''S+)['' @ BSL # js ''t ]+('' @ BSL # js ''S+)(?:[''
       @ BSL # js ''t ]+('' @ BSL # js ''S+))?''"

text \<open>
  A redirect rule as the callback \<^verbatim>\<open>(match, from, to, status) => ...\<close> receives it.
  The third capture is \<^verbatim>\<open>undefined\<close> (here \<open>None\<close>) when the optional group did not
  take part in the match. The first two groups take part in every match; were one of
  them undefined, \<^verbatim>\<open>_.escapeRegExp\<close> would turn \<^verbatim>\<open>from\<close> into the empty string and the
  template literal would print \<^verbatim>\<open>to\<close> as \<^verbatim>\<open>undefined\<close>.
\<close>

record rule =
  rule_from :: jsstring
  rule_to :: jsstring
  rule_status :: "jsstring option"

definition callback_args :: "captures \<Rightarrow> rule" where
  "callback_args caps =
     \<lparr>rule_from = (case caps ! 0 of None \<Rightarrow> [] | Some from \<Rightarrow> from),
      rule_to = (case caps ! 1 of None \<Rightarrow> js ''undefined'' | Some to \<Rightarrow> to),
      rule_status = caps ! 2\<rparr>"

text \<open>The rules of a table, in the order in which the callback gets them.\<close>

definition redirect_rules :: "jsstring \<Rightarrow> rule list" where
  "redirect_rules redirects =
     (case parse_pattern rule_regex_source of
        None \<Rightarrow> []
      | Some r \<Rightarrow> map callback_args (global_matches True r None redirects))"

section \<open>Compiling one rule\<close>

text \<open>
  \<^verbatim>\<open>_.escapeRegExp\<close> of lodash 4 tests the string with \<^verbatim>\<open>/[\\^$.*+?()[\]{}|]/\<close> and, when
  the string is not empty and the test succeeds, replaces every match of that pattern
  by \<^verbatim>\<open>'\\$&'\<close>, a backslash and the matched code unit; otherwise the string is returned
  as it is.
\<close>

definition reRegExpChar_source :: jsstring where
  "reRegExpChar_source = js ''['' @ BSL # BSL # js ''^$.*+?()['' @ BSL # js '']{}|]''"

definition escapeRegExp :: "jsstring \<Rightarrow> jsstring" where
  "escapeRegExp s =
     (case parse_pattern reRegExpChar_source of
        None \<Rightarrow> s
      | Some reHasRegExpChar \<Rightarrow>
          if s \<noteq> [] \<and> rx_test reHasRegExpChar s
          then replace_source True reRegExpChar_source (BSL # js ''$&'') s
          else s)"

text \<open>The three chained replacements on the escaped \<^verbatim>\<open>from\<close>.\<close>

definition compile_from :: "jsstring \<Rightarrow> jsstring" where
  "compile_from from =
     replace_source True (BSL # js ''/'') (BSL # js ''/'')
       (replace_source False (BSL # js ''/$'') (js ''(?:/.|/?$)'')
          (replace_source True (BSL # BSL # BSL # js ''*'') (js ''(.*)'') (escapeRegExp from)))"

text \<open>
  The template literal \<^verbatim>\<open>`[/^${ from }/,'${ to }',${ status }]`\<close>; an undefined
  \<^verbatim>\<open>status\<close> is converted to the string \<^verbatim>\<open>undefined\<close>.
\<close>

definition status_literal :: "jsstring option \<Rightarrow> jsstring" where
  "status_literal st = (case st of None \<Rightarrow> js ''undefined'' | Some s \<Rightarrow> s)"

definition entry :: "rule \<Rightarrow> jsstring" where
  "entry r =
     js ''[/^'' @ compile_from (rule_from r) @ js ''/,'' @ [QUOTE] @ rule_to r @ [QUOTE]
       @ js '','' @ status_literal (rule_status r) @ js '']''"

definition entries :: "jsstring \<Rightarrow> jsstring list" where
  "entries redirects = map entry (redirect_rules redirects)"

text \<open>\<^verbatim>\<open>Array.prototype.join\<close> on an array of strings.\<close>

fun join :: "jsstring \<Rightarrow> jsstring list \<Rightarrow> jsstring" where
  "join sep [] = []"
| "join sep [x] = x"
| "join sep (x # y # ys) = x @ sep @ join sep (y # ys)"

section \<open>Inserting the entries into the script\<close>

text \<open>
  \<^verbatim>\<open>sw.replace('/*insert_redirect*/', replacement)\<close> has a string for its pattern: the
  first occurrence only is replaced, and the replacement text is expanded as it is for a
  pattern.
\<close>

text \<open>The text before and after the first occurrence of \<open>pat\<close>, if there is one.\<close>

fun split_first :: "jsstring \<Rightarrow> jsstring \<Rightarrow> (jsstring \<times> jsstring) option" where
  "split_first pat [] = (if pat = [] then Some ([], []) else None)"
| "split_first pat (c # cs) =
     (if prefix pat (c # cs) then Some ([], drop (length pat) (c # cs))
      else map_option (\<lambda>(b, a). (c # b, a)) (split_first pat cs))"

definition replace_first :: "jsstring \<Rightarrow> jsstring \<Rightarrow> jsstring \<Rightarrow> jsstring" where
  "replace_first pat replacement s =
     (case split_first pat s of
        None \<Rightarrow> s
      | Some (preceding, following) \<Rightarrow>
          preceding @ get_substitution pat preceding following replacement @ following)"

definition placeholder :: jsstring where
  "placeholder = js ''/*insert_redirect*/''"

definition insert_redirects :: "jsstring \<Rightarrow> jsstring \<Rightarrow> jsstring" where
  "insert_redirects redirects sw = replace_first placeholder (join (js '','') (entries redirects)) sw"

text \<open>
  The task itself. The file system is a map from paths to contents. Both files are read
  first; a file that cannot be read rejects the promise and nothing is written.
\<close>

type_synonym files = "string \<rightharpoonup> jsstring"

datatype error = ReadError string

definition readSource :: "files \<Rightarrow> string \<Rightarrow> error + jsstring" where
  "readSource fs file = (case fs file of None \<Rightarrow> Inl (ReadError file) | Some s \<Rightarrow> Inr s)"

definition build_sw :: "files \<Rightarrow> error + files" where
  "build_sw fs =
     (case readSource fs ''_site/_redirects'' of
        Inl e \<Rightarrow> Inl e
      | Inr redirects \<Rightarrow>
          (case readSource fs ''_site/sw.js'' of
             Inl e \<Rightarrow> Inl e
           | Inr sw \<Rightarrow> Inr (fs(''_site/sw.js'' \<mapsto> insert_redirects redirects sw))))"

section \<open>The rule grammar in closed form\<close>

text \<open>
  The regular expression of the task as a pattern, and what one attempt of it comes to.
  \<open>match_rule s\<close> is the attempt at a position where \<^verbatim>\<open>^\<close> holds, \<open>s\<close> being the
  text from that position on; it gives the captures and the text after the match. Every
  quantifier is greedy, and giving characters back never helps: a shorter \<^verbatim>\<open>\S+\<close> is
  followed by a non-space character, which \<^verbatim>\<open>[\t ]+\<close> refuses, and a shorter
  \<^verbatim>\<open>[\t ]*\<close> or \<^verbatim>\<open>[\t ]+\<close> is followed by a tab or a space, which \<^verbatim>\<open>\S+\<close> refuses.
  So each piece takes its longest run, and the optional group is taken whenever it can
  be. \<open>scan_rules\<close> is the scan with these attempts; its flag says whether \<^verbatim>\<open>^\<close>
  holds at the position. That the pattern and the scan of the previous sections come to
  these is proved below.
\<close>

definition rule_regex :: rx where
  "rule_regex =
     Seq Bol (Seq (Star (OneOf [0x09, 0x20])) (Seq (Group (Plus NonSpace))
       (Seq (Plus (OneOf [0x09, 0x20])) (Seq (Group (Plus NonSpace))
         (Opt (Seq (Plus (OneOf [0x09, 0x20])) (Group (Plus NonSpace))))))))"

definition match_rule :: "jsstring \<Rightarrow> (rule \<times> jsstring) option" where
  "match_rule s =
     (let s1 = dropWhile is_blank s;
          from = takeWhile non_space s1;
          s2 = dropWhile non_space s1;
          s3 = dropWhile is_blank s2;
          to = takeWhile non_space s3;
          s4 = dropWhile non_space s3;
          s5 = dropWhile is_blank s4;
          status = takeWhile non_space s5;
          s6 = dropWhile non_space s5
      in if from = [] \<or> length s3 = length s2 \<or> to = [] then None
         else if length s5 < length s4 \<and> status \<noteq> []
           then Some (\<lparr>rule_from = from, rule_to = to, rule_status = Some status\<rparr>, s6)
           else Some (\<lparr>rule_from = from, rule_to = to, rule_status = None\<rparr>, s4))"

function scan_rules :: "bool \<Rightarrow> jsstring \<Rightarrow> rule list" where
  "scan_rules bol [] = []"
| "scan_rules bol (c # cs) =
     (case (if bol then match_rule (c # cs) else None) of
        Some (r, rest) \<Rightarrow> r # scan_rules False rest
      | None \<Rightarrow> scan_rules (is_line_terminator c) cs)"
  by pat_completeness auto
termination
proof (relation "measure (\<lambda>(bol, s). length s)")
  show "wf (measure (\<lambda>(bol, s). length s))"
    by simp
next
  fix bol :: bool and c :: code_unit and cs :: jsstring
  show "((is_line_terminator c, cs), (bol, c # cs)) \<in> measure (\<lambda>(bol, s). length s)"
    by simp
next
  fix bol :: bool and c :: code_unit and cs :: jsstring and x2 :: "rule \<times> jsstring"
    and r :: rule and rest :: jsstring
  assume m: "(if bol then match_rule (c # cs) else None) = Some x2" and x2: "(r, rest) = x2"
  define s1 where "s1 = dropWhile is_blank (c # cs)"
  define s2 where "s2 = dropWhile non_space s1"
  define s4 where "s4 = dropWhile non_space (dropWhile is_blank s2)"
  define s6 where "s6 = dropWhile non_space (dropWhile is_blank s4)"
  have le: "length s1 \<le> length (c # cs)" "length s4 \<le> length s2" "length s6 \<le> length s4"
    unfolding s1_def s4_def s6_def
    by (meson length_dropWhile_le order_trans)+
  from m x2 have ne: "takeWhile non_space s1 \<noteq> []" and rest: "rest = s6 \<or> rest = s4"
    by (auto simp: match_rule_def Let_def s1_def s2_def s4_def s6_def split: if_splits)
  from ne obtain d ds where "s1 = d # ds" "non_space d"
    by (cases s1) (auto split: if_splits)
  then have "length s2 < length s1"
    by (simp add: s2_def le_imp_less_Suc length_dropWhile_le)
  with le rest have "length rest < length (c # cs)"
    by auto
  then show "((False, rest), (bol, c # cs)) \<in> measure (\<lambda>(bol, s). length s)"
    by simp
qed

text \<open>
  A greedy loop over the code units of one class, unfolded: the longest run first, then
  the shorter ones. \<open>run_end\<close> is the code unit before the end of the longest run, and
  \<open>after_match\<close> the code unit before the end of a match of the rule.
\<close>

fun greedy :: "(code_unit \<Rightarrow> bool) \<Rightarrow> 'r matcher" where
  "greedy P prev [] caps k = k prev [] caps"
| "greedy P prev (c # cs) caps k =
     (if P c then or_else (greedy P (Some c) cs caps k) (k prev (c # cs) caps)
      else k prev (c # cs) caps)"

definition run_end :: "(code_unit \<Rightarrow> bool) \<Rightarrow> code_unit option \<Rightarrow> jsstring \<Rightarrow> code_unit option" where
  "run_end P prev s = (if takeWhile P s = [] then prev else Some (last (takeWhile P s)))"

definition after_match :: "rule \<Rightarrow> code_unit option" where
  "after_match r = Some (last (case rule_status r of None \<Rightarrow> rule_to r | Some st \<Rightarrow> st))"

text \<open>
  The compile step in closed form. The code units that \<^verbatim>\<open>_.escapeRegExp\<close> escapes:
\<close>

definition reRegExpChar :: "code_unit \<Rightarrow> bool" where
  "reRegExpChar c \<longleftrightarrow> c \<in> set (BSL # js ''^$.*+?()[]{}|'')"

text \<open>
  \<^verbatim>\<open>s.replace(/p/g, r)\<close> for a pattern \<open>p\<close> that is a fixed, non-empty sequence of code
  units and a replacement \<open>r\<close> without \<^verbatim>\<open>$\<close> patterns: the occurrences are replaced
  from left to right, and the scan goes on after each occurrence.
\<close>

fun replace_all :: "jsstring \<Rightarrow> jsstring \<Rightarrow> jsstring \<Rightarrow> jsstring" where
  "replace_all pat rep [] = []"
| "replace_all pat rep (c # cs) =
     (if pat \<noteq> [] \<and> prefix pat (c # cs)
      then rep @ replace_all pat rep (drop (length pat - 1) cs)
      else c # replace_all pat rep cs)"

text \<open>
  \<^verbatim>\<open>s.replace(/\/$/, r)\<close>: without the \<^verbatim>\<open>m\<close> flag \<^verbatim>\<open>$\<close> holds at the end of the string
  only, so the only possible match is a slash that is the last code unit.
\<close>

definition replace_trailing_slash :: "jsstring \<Rightarrow> jsstring \<Rightarrow> jsstring" where
  "replace_trailing_slash rep s =
     (if s \<noteq> [] \<and> last s = 0x2F then butlast s @ rep else s)"

section \<open>Notions of the specification\<close>

text \<open>
  The lines of a text are the pieces between its LineTerminators; the regular expression
  itself has no notion of a line beyond \<^verbatim>\<open>^\<close>.
\<close>

fun split_lines :: "jsstring \<Rightarrow> jsstring list" where
  "split_lines [] = [[]]"
| "split_lines (c # cs) =
     (if is_line_terminator c then [] # split_lines cs
      else (case split_lines cs of [] \<Rightarrow> [[c]] | l # ls \<Rightarrow> (c # l) # ls))"

definition no_terminator :: "jsstring \<Rightarrow> bool" where
  "no_terminator l \<longleftrightarrow> (\<forall>c \<in> set l. \<not> is_line_terminator c)"

definition line_rule :: "jsstring \<Rightarrow> rule option" where
  "line_rule l = map_option fst (match_rule l)"

text \<open>
  The rule grammar as the specification words it, with tabs and spaces for its
  whitespace: a line matches when it starts with optional whitespace, a first token,
  whitespace and a second token (what follows is free, the third token being optional).
\<close>

definition matches_grammar :: "jsstring \<Rightarrow> bool" where
  "matches_grammar l \<longleftrightarrow>
     (\<exists>ws from ws' to rest.
        l = ws @ from @ ws' @ to @ rest \<and>
        (\<forall>c \<in> set ws. is_blank c) \<and>
        from \<noteq> [] \<and> (\<forall>c \<in> set from. non_space c) \<and>
        ws' \<noteq> [] \<and> (\<forall>c \<in> set ws'. is_blank c) \<and>
        to \<noteq> [] \<and> (\<forall>c \<in> set to. non_space c))"

text \<open>
  What the specification says a code unit of \<^verbatim>\<open>from\<close> becomes: the wildcard marker
  becomes a capture group, a code unit with a meaning in the pattern language (ECMAScript's
  SyntaxCharacter, and the slash that would end the literal) gets a backslash, and any
  other code unit stands for itself.
\<close>

definition piece :: "code_unit \<Rightarrow> jsstring" where
  "piece c =
     (if c = 0x2A then js ''(.*)''
      else if syntax_character c \<or> c = 0x2F then [BSL, c]
      else [c])"

text \<open>The alternation that stands for a trailing slash: \<^verbatim>\<open>(?:\/.|\/?$)\<close>.\<close>

definition tail_alternation :: jsstring where
  "tail_alternation = js ''(?:'' @ BSL # js ''/.|'' @ BSL # js ''/?$)''"

text \<open>The state of \<^verbatim>\<open>from\<close> between the first and the second replacement.\<close>

definition star_piece :: "code_unit \<Rightarrow> jsstring" where
  "star_piece c = (if c = 0x2A then js ''(.*)'' else if reRegExpChar c then [BSL, c] else [c])"

text \<open>
  A replacement text has a \<^verbatim>\<open>$\<close> pattern when a dollar sign is followed by a dollar
  sign, an ampersand, a backquote or a single quote. The scan skips the two code units
  of a pattern, as GetSubstitution does.
\<close>

fun has_dollar_pattern :: "jsstring \<Rightarrow> bool" where
  "has_dollar_pattern [] = False"
| "has_dollar_pattern [c] = False"
| "has_dollar_pattern (c # d # cs) =
     (if c = 0x24 \<and> (d = 0x24 \<or> d = 0x26 \<or> d = 0x60 \<or> d = 0x27) then True
      else has_dollar_pattern (d # cs))"

section \<open>The emitted matchers\<close>

text \<open>
  The matcher of an entry is the literal \<^verbatim>\<open>/^${ from }/\<close>: its source is a caret and the
  compiled \<^verbatim>\<open>from\<close>.
\<close>

definition matcher_source :: "jsstring \<Rightarrow> jsstring" where
  "matcher_source from = js ''^'' @ compile_from from"

definition matcher_test :: "jsstring \<Rightarrow> jsstring \<Rightarrow> bool" where
  "matcher_test from s =
     (case parse_pattern (matcher_source from) of None \<Rightarrow> False | Some r \<Rightarrow> rx_test r s)"

text \<open>
  An entry is JavaScript source text, and the matcher that it carries is the regular
  expression literal after its opening bracket. The body of a literal ends at the first
  slash that is neither escaped by a backslash nor inside a class, and no line terminator
  may stand in it. \<open>literal_body\<close> gives the body and the text after the closing slash;
  its flag says whether the scan is inside a class.
\<close>

fun literal_body :: "bool \<Rightarrow> jsstring \<Rightarrow> (jsstring \<times> jsstring) option" where
  "literal_body cls [] = None"
| "literal_body cls (c # cs) =
     (if is_line_terminator c then None
      else if c = BSL then
        (case cs of
           [] \<Rightarrow> None
         | d # ds \<Rightarrow>
             if is_line_terminator d then None
             else map_option (\<lambda>(body, rest). (c # d # body, rest)) (literal_body cls ds))
      else if c = 0x2F \<and> \<not> cls then Some ([], cs)
      else map_option (\<lambda>(body, rest). (c # body, rest))
             (literal_body (if c = 0x5B then True else if c = 0x5D then False else cls) cs))"

text \<open>
  The body of the matcher of an entry, read from the text of the entry, and the test of
  a text against it.
\<close>

definition entry_matcher :: "jsstring \<Rightarrow> jsstring option" where
  "entry_matcher e =
     (case e of
        c # d # cs \<Rightarrow>
          if c = 0x5B \<and> d = 0x2F then map_option fst (literal_body False cs) else None
      | _ \<Rightarrow> None)"

definition entry_test :: "jsstring \<Rightarrow> jsstring \<Rightarrow> bool" where
  "entry_test e s =
     (case entry_matcher e of
        None \<Rightarrow> False
      | Some body \<Rightarrow>
          (case parse_pattern body of None \<Rightarrow> False | Some r \<Rightarrow> rx_test r s))"

text \<open>The pattern that the specification gives for one code unit of \<^verbatim>\<open>from\<close>.\<close>

definition rx_piece :: "code_unit \<Rightarrow> rx" where
  "rx_piece c = (if c = 0x2A then Group (Star Dot) else Chr c)"

text \<open>
  The pattern of the alternation that stands for a trailing slash, and the pattern that
  the specification gives for a whole \<^verbatim>\<open>from\<close>: anchored at the start, one term per
  code unit.
\<close>

definition tail_rx :: rx where
  "tail_rx = Alt (Seq (Chr 0x2F) Dot) (Seq (Opt (Chr 0x2F)) Eol)"

definition matcher_rx :: "jsstring \<Rightarrow> rx" where
  "matcher_rx from =
     (if from \<noteq> [] \<and> last from = 0x2F
      then mk_seq (Bol # map rx_piece (butlast from) @ [tail_rx])
      else mk_seq (Bol # map rx_piece from))"

section \<open>The task graph\<close>

text \<open>
  The declarations of \<^verbatim>\<open>gulpfile.js\<close>, in their order. A task is declared with an
  array of tasks it depends on, with a function, or with the function that
  \<^verbatim>\<open>sequence\<close> returns for its arguments (each a task name or an array of task names).
  A function either returns the stream of \<^verbatim>\<open>pump\<close>, called with the callback
  \<^verbatim>\<open>cb\<close> (\<open>Pump True\<close>) or without a callback (\<open>Pump False\<close>), or returns a
  promise.
\<close>

datatype action = Pump bool | Promise

datatype stage_arg = One string | Many "string list"

datatype task_decl = Deps "string list" | Action action | Sequence "stage_arg list"

definition gulpfile :: "(string \<times> task_decl) list" where
  "gulpfile =
    [(''build-config'', Action Promise),
     (''build-app-icons'', Action (Pump True)),
     (''build-css'', Deps [''minify-css'']),
     (''build-favicon'', Action Promise),
     (''build-headers'', Action Promise),
     (''build-html'', Deps [''minify-html'']),
     (''build-images'',
        Sequence [One ''build-app-icons'', One ''build-favicon'', One ''minify-images'']),
     (''build-js'', Sequence [One ''build-sw'', Many [''minify-js'', ''minify-sw'']]),
     (''build-metadata'', Deps [''minify-json'', ''minify-xml'']),
     (''build-redirects'', Action Promise),
     (''build-sw'', Action Promise),
     (''minify-css'', Action (Pump False)),
     (''minify-html'', Action (Pump True)),
     (''minify-images'', Action (Pump True)),
     (''minify-js'', Action (Pump True)),
     (''minify-json'', Action (Pump True)),
     (''minify-sw'', Action (Pump True)),
     (''minify-xml'', Action (Pump True)),
     (''build'',
        Sequence [Many [''build-headers'', ''build-metadata'', ''build-redirects''],
                  Many [''build-css'', ''build-html'', ''build-images'', ''build-js'']])]"

text \<open>
  The shared callback \<^verbatim>\<open>cb = e => e && console.log(e.message)\<close>: with an error it logs
  the message of the error, without one it does nothing. The console is the list of the
  lines logged so far.
\<close>

record js_error =
  message :: string

definition cb :: "js_error option \<Rightarrow> string list \<Rightarrow> string list" where
  "cb e console = (case e of None \<Rightarrow> console | Some err \<Rightarrow> console @ [message err])"

text \<open>
  Modelled from the spec: what an error in the action of a task does (\<^verbatim>\<open>pump\<close> and the
  command line of gulp are not part of the sources). \<^verbatim>\<open>pump\<close> hands the error of its
  pipeline to the callback it was given, and to nobody when it was given none; the task
  is not failed by it. A promise that rejects fails its task.
\<close>

datatype outcome = Completed | Rejected js_error

fun action_error :: "action \<Rightarrow> js_error \<Rightarrow> string list \<Rightarrow> string list \<times> outcome" where
  "action_error (Pump True) e console = (cb (Some e) console, Completed)"
| "action_error (Pump False) e console = (console, Completed)"
| "action_error Promise e console = (console, Rejected e)"

text \<open>
  Modelled from the spec: the task of its data model, with the dependencies as an ordered
  sequence of stages and an optional action. An array of dependencies is one stage, the
  arguments of \<^verbatim>\<open>sequence\<close> are one stage each, and a function is the action.
\<close>

record task =
  stages :: "string list list"
  has_action :: bool

fun stage_names :: "stage_arg \<Rightarrow> string list" where
  "stage_names (One n) = [n]"
| "stage_names (Many ns) = ns"

fun task_of :: "task_decl \<Rightarrow> task" where
  "task_of (Deps ds) = \<lparr>stages = [ds], has_action = False\<rparr>"
| "task_of (Action a) = \<lparr>stages = [], has_action = True\<rparr>"
| "task_of (Sequence args) = \<lparr>stages = map stage_names args, has_action = False\<rparr>"

definition registry :: "string \<rightharpoonup> task" where
  "registry = map_option task_of \<circ> map_of gulpfile"

text \<open>
  Modelled from the spec: the scheduler (gulp and gulp-sequence are not part of the
  sources). A run is the sequence of its events and whether it succeeded. The stages of a
  task run in order, and a stage that failed ends the run of the task; the tasks of a
  stage run concurrently, each by the same algorithm, so their events interleave in any
  way, and the stage waits for all of them; the action runs once all stages succeeded
  and fails when \<open>fails\<close> says so. A name that is not registered fails. The fuel bounds
  the depth of the dependencies; with too little of it there is no run. No task of this
  graph is named by two tasks, so the rule that a task runs once per invocation has
  nothing to add here and is left out.
\<close>

datatype event = Start string | End string | Fail string

type_synonym run = "event list \<times> bool"

fun par_runs :: "run set list \<Rightarrow> run set" where
  "par_runs [] = {([], True)}"
| "par_runs (R # Rs) =
     (\<Union>(t1, ok1) \<in> R. \<Union>(t2, ok2) \<in> par_runs Rs. (\<lambda>t. (t, ok1 \<and> ok2)) ` shuffles t1 t2)"

fun seq_runs :: "run set list \<Rightarrow> run set" where
  "seq_runs [] = {([], True)}"
| "seq_runs (R # Rs) =
     (\<Union>(t1, ok1) \<in> R.
        if ok1 then (\<lambda>(t2, ok2). (t1 @ t2, ok2)) ` seq_runs Rs else {(t1, False)})"

primrec run :: "(string \<rightharpoonup> task) \<Rightarrow> (string \<Rightarrow> bool) \<Rightarrow> nat \<Rightarrow> string \<Rightarrow> run set" where
  "run reg fails 0 n = {}"
| "run reg fails (Suc k) n =
     (case reg n of
        None \<Rightarrow> {([Fail n], False)}
      | Some t \<Rightarrow>
          (\<lambda>(tr, ok).
             if ok \<and> \<not> (has_action t \<and> fails n) then (Start n # tr @ [End n], True)
             else (Start n # tr @ [Fail n], False))
          ` seq_runs (map (\<lambda>st. par_runs (map (run reg fails k) st)) (stages t)))"

text \<open>
  One schedule among them: the tasks of a stage run one after the other, and every action
  succeeds.
\<close>

primrec sequential :: "(string \<rightharpoonup> task) \<Rightarrow> nat \<Rightarrow> string \<Rightarrow> event list option" where
  "sequential reg 0 n = None"
| "sequential reg (Suc k) n =
     (case reg n of
        None \<Rightarrow> None
      | Some t \<Rightarrow>
          map_option (\<lambda>trs. Start n # concat (map concat trs) @ [End n])
            (those (map (\<lambda>st. those (map (sequential reg k) st)) (stages t))))"

definition build_in_sequence :: "event list" where
  "build_in_sequence =
     [Start ''build'',
      Start ''build-headers'', End ''build-headers'',
      Start ''build-metadata'', Start ''minify-json'', End ''minify-json'',
        Start ''minify-xml'', End ''minify-xml'', End ''build-metadata'',
      Start ''build-redirects'', End ''build-redirects'',
      Start ''build-css'', Start ''minify-css'', End ''minify-css'', End ''build-css'',
      Start ''build-html'', Start ''minify-html'', End ''minify-html'', End ''build-html'',
      Start ''build-images'', Start ''build-app-icons'', End ''build-app-icons'',
        Start ''build-favicon'', End ''build-favicon'',
        Start ''minify-images'', End ''minify-images'', End ''build-images'',
      Start ''build-js'', Start ''build-sw'', End ''build-sw'',
        Start ''minify-js'', End ''minify-js'', Start ''minify-sw'', End ''minify-sw'',
        End ''build-js'',
      End ''build'']"

text \<open>
  Task \<open>a\<close> completes before task \<open>b\<close> starts in a run: if \<open>b\<close> starts at all, the
  completion of \<open>a\<close> stands before the first start of \<open>b\<close>.
\<close>

definition completes_before :: "string \<Rightarrow> string \<Rightarrow> event list \<Rightarrow> bool" where
  "completes_before a b tr \<longleftrightarrow>
     (Start b \<in> set tr \<longrightarrow> End a \<in> set (takeWhile (\<lambda>e. e \<noteq> Start b) tr))"

text \<open>
  The task an event belongs to, and the sets of task names that hold the dependencies of
  their members.
\<close>

fun ename :: "event \<Rightarrow> string" where
  "ename (Start n) = n"
| "ename (End n) = n"
| "ename (Fail n) = n"

definition closed :: "(string \<rightharpoonup> task) \<Rightarrow> string set \<Rightarrow> bool" where
  "closed reg P \<longleftrightarrow>
     (\<forall>m \<in> P. \<forall>t. reg m = Some t \<longrightarrow> (\<forall>st \<in> set (stages t). set st \<subseteq> P))"

section \<open>The regular expression of the task\<close>

lemma parse_rule_regex: "parse_pattern rule_regex_source = Some rule_regex"
  by code_simp

lemma or_else_simps:
  "or_else None y = y" "or_else (Some r) y = Some r" "or_else x None = x"
  by (simp_all add: or_else_def split: option.splits)

lemma star_class:
  "length s \<le> n \<Longrightarrow> star_loop n (char_matcher P) prev s caps k = greedy P prev s caps k"
proof (induction n arbitrary: prev s)
  case 0
  then show ?case by simp
next
  case (Suc n)
  show ?case
  proof (cases s)
    case Nil
    then show ?thesis by (simp add: char_matcher_def or_else_simps)
  next
    case (Cons c cs)
    with Suc.prems have "length cs \<le> n" by simp
    from Suc.IH [OF this] Cons show ?thesis
      by (simp add: char_matcher_def or_else_simps)
  qed
qed

lemma run_end_Cons: "P c \<Longrightarrow> run_end P prev (c # cs) = run_end P (Some c) cs"
  by (simp add: run_end_def)

lemma greedy_commit:
  assumes "\<And>p c ys. P c \<Longrightarrow> k p (c # ys) caps = None"
  shows "greedy P prev s caps k = k (run_end P prev s) (dropWhile P s) caps"
proof (induction s arbitrary: prev)
  case Nil
  show ?case by (simp add: run_end_def)
next
  case (Cons c cs)
  show ?case
  proof (cases "P c")
    case True
    then show ?thesis
      by (simp add: Cons.IH assms or_else_simps run_end_Cons)
  next
    case False
    then show ?thesis by (simp add: run_end_def)
  qed
qed

lemma greedy_first:
  assumes "k (run_end P prev s) (dropWhile P s) caps = Some r"
  shows "greedy P prev s caps k = Some r"
  using assms
proof (induction s arbitrary: prev)
  case Nil
  then show ?case by (simp add: run_end_def)
next
  case (Cons c cs)
  show ?case
  proof (cases "P c")
    case True
    with Cons.prems have "k (run_end P (Some c) cs) (dropWhile P cs) caps = Some r"
      by (simp add: run_end_Cons)
    from Cons.IH [OF this] True show ?thesis
      by (simp add: or_else_simps)
  next
    case False
    with Cons.prems show ?thesis by (simp add: run_end_def)
  qed
qed

lemma greedy_run:
  assumes "(\<forall>p c ys. P c \<longrightarrow> k p (c # ys) caps = None)
           \<or> k (run_end P prev s) (dropWhile P s) caps \<noteq> None"
  shows "greedy P prev s caps k = k (run_end P prev s) (dropWhile P s) caps"
  using assms greedy_commit [of P k caps prev s] greedy_first [of k P prev s caps]
  by (cases "k (run_end P prev s) (dropWhile P s) caps") auto

text \<open>A loop of at least one character of a class.\<close>

lemma plus_class:
  assumes "(\<forall>p c ys. P c \<longrightarrow> k p (c # ys) caps = None)
           \<or> (takeWhile P s \<noteq> [] \<longrightarrow> k (Some (last (takeWhile P s))) (dropWhile P s) caps \<noteq> None)"
  shows "char_matcher P prev s caps
           (\<lambda>prev' s' caps'. star_loop (length s') (char_matcher P) prev' s' caps' k)
         = (if takeWhile P s = [] then None
            else k (Some (last (takeWhile P s))) (dropWhile P s) caps)"
proof (cases s)
  case Nil
  then show ?thesis by (simp add: char_matcher_def)
next
  case (Cons d ds)
  show ?thesis
  proof (cases "P d")
    case False
    with Cons show ?thesis by (simp add: char_matcher_def)
  next
    case True
    have e: "run_end P (Some d) ds = Some (last (takeWhile P s))"
      using Cons True by (simp add: run_end_def)
    have "(\<forall>p c ys. P c \<longrightarrow> k p (c # ys) caps = None)
           \<or> k (run_end P (Some d) ds) (dropWhile P ds) caps \<noteq> None"
      using assms Cons True e by auto
    from greedy_run [where P = P and k = k and caps = caps and prev = "Some d" and s = ds, OF this]
      Cons True e show ?thesis
      by (simp add: char_matcher_def star_class)
  qed
qed

lemma star_class_run:
  assumes "\<forall>p c ys. P c \<longrightarrow> k p (c # ys) caps = None"
  shows "star_loop (length s) (char_matcher P) prev s caps k
           = k (run_end P prev s) (dropWhile P s) caps"
  using assms by (simp add: star_class greedy_commit)

lemma take_takeWhile: "take (length s - length (dropWhile P s)) s = takeWhile P s"
proof -
  have "length s = length (takeWhile P s) + length (dropWhile P s)"
    by (metis length_append takeWhile_dropWhile_id)
  then have "length s - length (dropWhile P s) = length (takeWhile P s)"
    by simp
  then show ?thesis
    by (metis append_eq_conv_conj takeWhile_dropWhile_id)
qed

lemma rx_exec_NonSpace: "rx_exec ml NonSpace g = char_matcher non_space"
  by (intro ext) simp

lemma rx_exec_OneOf: "rx_exec ml (OneOf cs) g = char_matcher (\<lambda>d. d \<in> set cs)"
  by (intro ext) simp

text \<open>A capture group around a loop of at least one non-space character.\<close>

lemma token_group:
  assumes "(\<forall>p c ys cs. non_space c \<longrightarrow> k p (c # ys) cs = None)
           \<or> (takeWhile non_space s \<noteq> [] \<longrightarrow>
                k (Some (last (takeWhile non_space s))) (dropWhile non_space s)
                  (caps[g := Some (takeWhile non_space s)]) \<noteq> None)"
  shows "rx_exec ml (Group (Plus NonSpace)) g prev s caps k
         = (if takeWhile non_space s = [] then None
            else k (Some (last (takeWhile non_space s))) (dropWhile non_space s)
                   (caps[g := Some (takeWhile non_space s)]))"
proof -
  let ?k = "\<lambda>prev' s' caps'. k prev' s' (caps'[g := Some (take (length s - length s') s)])"
  have "(\<forall>p c ys. non_space c \<longrightarrow> ?k p (c # ys) caps = None)
           \<or> (takeWhile non_space s \<noteq> [] \<longrightarrow>
                ?k (Some (last (takeWhile non_space s))) (dropWhile non_space s) caps \<noteq> None)"
    using assms by (auto simp: take_takeWhile)
  from plus_class [of non_space ?k caps s prev, OF this] show ?thesis
    by (simp add: take_takeWhile rx_exec_NonSpace)
qed

lemma rx_exec_blank: "rx_exec ml (OneOf [0x09, 0x20]) g = char_matcher is_blank"
  by (intro ext) (simp add: char_matcher_def is_blank_def split: list.splits)

lemma plus_blank:
  assumes "\<forall>p c ys. is_blank c \<longrightarrow> k p (c # ys) caps = None"
  shows "rx_exec ml (Plus (OneOf [0x09, 0x20])) g prev s caps k
         = (if takeWhile is_blank s = [] then None
            else k (Some (last (takeWhile is_blank s))) (dropWhile is_blank s) caps)"
proof -
  have "(\<forall>p c ys. is_blank c \<longrightarrow> k p (c # ys) caps = None)
           \<or> (takeWhile is_blank s \<noteq> [] \<longrightarrow>
                 k (Some (last (takeWhile is_blank s))) (dropWhile is_blank s) caps \<noteq> None)"
    using assms by blast
  from plus_class [of is_blank k caps s prev, OF this] show ?thesis
    by (simp only: rx_exec.simps(11) rx_exec_blank)
qed

lemma star_blank:
  assumes "\<forall>p c ys. is_blank c \<longrightarrow> k p (c # ys) caps = None"
  shows "rx_exec ml (Star (OneOf [0x09, 0x20])) g prev s caps k
         = k (run_end is_blank prev s) (dropWhile is_blank s) caps"
  using star_class_run [of is_blank k caps s prev, OF assms]
  by (simp only: rx_exec.simps(10) rx_exec_blank)

lemma blank_not_non_space: "is_blank c \<Longrightarrow> \<not> non_space c"
  by (auto simp: non_space_def is_space_def is_blank_def)

lemma non_space_not_blank: "non_space c \<Longrightarrow> \<not> is_blank c"
  by (auto simp: non_space_def is_space_def is_blank_def)

lemma blank_not_token: "is_blank c \<Longrightarrow> takeWhile non_space (c # ys) = []"
  by (auto simp: non_space_def is_space_def is_blank_def)

lemma token_not_blank: "non_space c \<Longrightarrow> takeWhile is_blank (c # ys) = []"
  by (auto simp: non_space_def is_space_def is_blank_def)

lemma exec_rule_regex:
  "exec True rule_regex prev s =
     (if prev = None \<or> is_line_terminator (the prev) then
        (case match_rule s of
           None \<Rightarrow> None
         | Some (r, rest) \<Rightarrow>
             Some ([Some (rule_from r), Some (rule_to r), rule_status r], after_match r, rest))
      else None)"
proof -
  let ?K = "\<lambda>p s c. Some (c :: captures, p :: code_unit option, s :: jsstring)"
  let ?G = "Group (Plus NonSpace)"
  let ?B = "Plus (OneOf [0x09, 0x20])"
  let ?tok = "takeWhile non_space"
  let ?ws = "takeWhile is_blank"
  have g3: "rx_exec True ?G (Suc (Suc 0)) p u c ?K
      = (if ?tok u = [] then None
         else Some (c[Suc (Suc 0) := Some (?tok u)], Some (last (?tok u)), dropWhile non_space u))" for p u c
    by (rule token_group [where k = ?K, THEN trans]) simp_all
  let ?C6 = "\<lambda>p u c. rx_exec True ?G (Suc (Suc 0)) p u c ?K"
  have b2: "rx_exec True ?B (Suc (Suc 0)) p u c ?C6
      = (if ?ws u = [] then None else ?C6 (Some (last (?ws u))) (dropWhile is_blank u) c)" for p u c
    by (rule plus_blank) (unfold g3, simp add: blank_not_token blank_not_non_space)
  let ?C5 = "\<lambda>p u c. or_else (rx_exec True ?B (Suc (Suc 0)) p u c ?C6) (?K p u c)"
  have c5: "?C5 p u c \<noteq> None" for p u c
    by (cases "rx_exec True ?B (Suc (Suc 0)) p u c ?C6") (simp_all add: or_else_simps)
  have g2: "rx_exec True ?G (Suc 0) p u c ?C5
      = (if ?tok u = [] then None
         else ?C5 (Some (last (?tok u))) (dropWhile non_space u) (c[Suc 0 := Some (?tok u)]))" for p u c
    by (rule token_group) (use c5 in blast)
  let ?C4 = "\<lambda>p u c. rx_exec True ?G (Suc 0) p u c ?C5"
  have b1: "rx_exec True ?B (Suc 0) p u c ?C4
      = (if ?ws u = [] then None else ?C4 (Some (last (?ws u))) (dropWhile is_blank u) c)" for p u c
    by (rule plus_blank) (unfold g2, simp add: blank_not_token blank_not_non_space)
  let ?C3 = "\<lambda>p u c. rx_exec True ?B (Suc 0) p u c ?C4"
  have g1: "rx_exec True ?G 0 p u c ?C3
      = (if ?tok u = [] then None
         else ?C3 (Some (last (?tok u))) (dropWhile non_space u) (c[0 := Some (?tok u)]))" for p u c
    by (rule token_group) (unfold b1, simp add: token_not_blank non_space_not_blank)
  let ?C2 = "\<lambda>p u c. rx_exec True ?G 0 p u c ?C3"
  have s0: "rx_exec True (Star (OneOf [0x09, 0x20])) 0 p u c ?C2
      = ?C2 (run_end is_blank p u) (dropWhile is_blank u) c" for p u c
    by (rule star_blank) (unfold g1, simp add: blank_not_token blank_not_non_space)
  have l: "length (dropWhile is_blank u) < length u \<longleftrightarrow> ?ws u \<noteq> []" for u
    by (cases u) (auto simp: le_imp_less_Suc length_dropWhile_le)
  have l': "length (dropWhile is_blank u) = length u \<longleftrightarrow> ?ws u = []" for u
    by (cases u) (auto simp: length_dropWhile_le dest: arg_cong [where f = length]
        simp: le_imp_less_Suc less_not_refl2 [THEN not_sym])
  have "exec True rule_regex prev s =
     (if prev = None \<or> is_line_terminator (the prev)
      then rx_exec True (Star (OneOf [0x09, 0x20])) 0 prev s [None, None, None] ?C2 else None)"
    by (simp del: rx_exec.simps add: exec_def rule_regex_def numeral_3_eq_3 rx_exec.simps(6,8,12))
  also have "\<dots> = (if prev = None \<or> is_line_terminator (the prev) then
        (case match_rule s of
           None \<Rightarrow> None
         | Some (r, rest) \<Rightarrow>
             Some ([Some (rule_from r), Some (rule_to r), rule_status r], after_match r, rest))
      else None)"
    apply (simp only: s0)
    apply (simp only: g1)
    apply (simp only: b1)
    apply (simp only: g2)
    apply (simp only: b2)
    apply (simp only: g3)
    apply (simp add: match_rule_def Let_def or_else_simps l l' after_match_def)
    done
  finally show ?thesis .
qed

lemma match_rule_shorter:
  assumes "match_rule s = Some (r, rest)"
  shows "length rest < length s"
proof -
  define s1 where "s1 = dropWhile is_blank s"
  define s2 where "s2 = dropWhile non_space s1"
  define s4 where "s4 = dropWhile non_space (dropWhile is_blank s2)"
  define s6 where "s6 = dropWhile non_space (dropWhile is_blank s4)"
  have le: "length s1 \<le> length s" "length s4 \<le> length s2" "length s6 \<le> length s4"
    unfolding s1_def s4_def s6_def
    by (meson length_dropWhile_le order_trans)+
  from assms have ne: "takeWhile non_space s1 \<noteq> []" and rest: "rest = s6 \<or> rest = s4"
    by (auto simp: match_rule_def Let_def s1_def s2_def s4_def s6_def split: if_splits)
  from ne obtain d ds where "s1 = d # ds" "non_space d"
    by (cases s1) (auto split: if_splits)
  then have "length s2 < length s1"
    by (simp add: s2_def le_imp_less_Suc length_dropWhile_le)
  with le rest show ?thesis
    by auto
qed

lemma match_rule_after:
  assumes "match_rule s = Some (r, rest)"
  shows "\<exists>c. after_match r = Some c \<and> \<not> is_line_terminator c"
proof -
  have n: "xs \<noteq> [] \<Longrightarrow> \<not> is_line_terminator (last (takeWhile non_space xs @ []))
             \<or> takeWhile non_space xs = []" for xs
    by (cases "takeWhile non_space xs = []")
      (auto dest!: last_in_set set_takeWhileD simp: non_space_def is_space_def)
  have t: "takeWhile non_space xs \<noteq> [] \<Longrightarrow> \<not> is_line_terminator (last (takeWhile non_space xs))"
    for xs
    by (auto dest!: last_in_set set_takeWhileD simp: non_space_def is_space_def)
  from assms show ?thesis
    by (auto simp: match_rule_def Let_def after_match_def t split: if_splits)
qed

lemma callback_args_captures:
  "callback_args [Some (rule_from r), Some (rule_to r), rule_status r] = r"
  by (simp add: callback_args_def)

lemma global_rule_regex:
  "map callback_args (global_matches True rule_regex prev s)
     = scan_rules (prev = None \<or> is_line_terminator (the prev)) s"
proof (induction "length s" arbitrary: s prev rule: less_induct)
  case less
  show ?case
  proof (cases s)
    case Nil
    then show ?thesis
      by (simp add: exec_rule_regex match_rule_def)
  next
    case (Cons c cs)
    have step: "map callback_args (global_matches True rule_regex (Some c) cs)
                  = scan_rules (is_line_terminator c) cs"
      using less [of cs "Some c"] Cons by simp
    show ?thesis
    proof (cases "(prev = None \<or> is_line_terminator (the prev)) \<and> match_rule s \<noteq> None")
      case True
      then obtain r rest where m: "match_rule s = Some (r, rest)"
        by auto
      from match_rule_shorter [OF m] have l: "length rest < length s" .
      from match_rule_after [OF m] obtain d where
        d: "after_match r = Some d" "\<not> is_line_terminator d"
        by blast
      have "map callback_args (global_matches True rule_regex (after_match r) rest)
              = scan_rules False rest"
        using less [OF l, of "after_match r"] d by simp
      with True m l Cons show ?thesis
        by (simp add: exec_rule_regex callback_args_captures)
    next
      case False
      then have "exec True rule_regex prev s = None"
        by (auto simp: exec_rule_regex split: option.splits)
      with False step Cons show ?thesis
        by (auto split: option.splits)
    qed
  qed
qed

lemma redirect_rules_scan: "redirect_rules t = scan_rules True t"
  by (simp add: redirect_rules_def parse_rule_regex global_rule_regex)

lemma entries_scan: "entries t = map entry (scan_rules True t)"
  by (simp add: entries_def redirect_rules_scan)

subsection \<open>The patterns of the compile step\<close>

lemma get_substitution_plain:
  "\<not> has_dollar_pattern t \<Longrightarrow> get_substitution m b a t = t"
  by (induction t rule: has_dollar_pattern.induct) (auto split: if_splits)

lemma groups_mk_seq: "groups (mk_seq ts) = sum_list (map groups ts)"
  by (induction ts rule: mk_seq.induct) simp_all

lemma rx_exec_mk_seq_Cons:
  "rx_exec ml (mk_seq (a # ts)) g prev s caps k
     = rx_exec ml a g prev s caps
         (\<lambda>prev' s' caps'. rx_exec ml (mk_seq ts) (g + groups a) prev' s' caps' k)"
  by (cases ts) simp_all

lemma rx_exec_literal:
  "rx_exec ml (mk_seq (map Chr xs @ ts)) g prev s caps k
     = (if prefix xs s
        then rx_exec ml (mk_seq ts) g (if xs = [] then prev else Some (last xs))
               (drop (length xs) s) caps k
        else None)"
proof (induction xs arbitrary: prev s)
  case Nil
  show ?case by simp
next
  case (Cons c xs)
  show ?case
    by (cases s) (simp_all add: rx_exec_mk_seq_Cons Cons.IH char_matcher_def)
qed

lemma groups_literal: "groups (mk_seq (map Chr xs)) = 0"
  by (simp add: groups_mk_seq comp_def)

lemma exec_literal:
  "exec ml (mk_seq (map Chr xs)) prev s =
     (if prefix xs s
      then Some ([], if xs = [] then prev else Some (last xs), drop (length xs) s)
      else None)"
  using rx_exec_literal [of ml xs "[]" 0 prev s "[]" "\<lambda>prev' s' caps. Some (caps, prev', s')"]
  by (simp add: exec_def groups_literal)

lemma replace_regex_literal:
  assumes "xs \<noteq> []" and "\<not> has_dollar_pattern rep"
  shows "replace_regex True (mk_seq (map Chr xs)) rep pre prev s = replace_all xs rep s"
proof (induction s arbitrary: pre prev rule: length_induct)
  case (1 s)
  show ?case
  proof (cases s)
    case Nil
    then show ?thesis using assms(1) by (simp add: exec_literal)
  next
    case (Cons c cs)
    show ?thesis
    proof (cases "prefix xs (c # cs)")
      case True
      have l: "length (drop (length xs) (c # cs)) \<le> length cs"
        using assms(1) by (cases xs) simp_all
      have d: "drop (length xs) (c # cs) = drop (length xs - 1) cs"
        using assms(1) by (cases xs) simp_all
      have "length (drop (length xs) (c # cs)) < length s"
        using l Cons by simp
      from 1 [rule_format, OF this] True l show ?thesis
        using assms by (simp add: Cons exec_literal get_substitution_plain d del: drop_Suc_Cons)
    next
      case False
      have "length cs < length s" using Cons by simp
      from 1 [rule_format, OF this] False show ?thesis
        using assms by (simp add: Cons exec_literal)
    qed
  qed
qed

lemma exec_trailing_slash:
  "exec False (Seq (Chr 0x2F) Eol) prev s =
     (if s = [0x2F] then Some ([], Some 0x2F, []) else None)"
  by (cases s) (auto simp: exec_def char_matcher_def)

lemma replace_regex_trailing_slash:
  assumes "\<not> has_dollar_pattern rep"
  shows "replace_regex False (Seq (Chr 0x2F) Eol) rep pre prev s = replace_trailing_slash rep s"
proof (induction s arbitrary: pre prev)
  case Nil
  show ?case by (simp add: exec_trailing_slash replace_trailing_slash_def)
next
  case (Cons c cs)
  show ?case
    using assms
    by (cases "cs = []")
       (simp_all add: exec_trailing_slash replace_trailing_slash_def Cons get_substitution_plain)
qed

lemma exec_class:
  "exec ml (OneOf cls) prev s =
     (case s of [] \<Rightarrow> None
      | c # cs \<Rightarrow> if c \<in> set cls then Some ([], Some c, cs) else None)"
  by (cases s) (simp_all add: exec_def char_matcher_def)

lemma replace_regex_class:
  "replace_regex True (OneOf cls) [BSL, 0x24, 0x26] pre prev s
     = concat (map (\<lambda>c. if c \<in> set cls then [BSL, c] else [c]) s)"
  by (induction s arbitrary: pre prev) (simp_all add: exec_class)

lemma parse_reRegExpChar:
  "parse_pattern reRegExpChar_source = Some (OneOf (BSL # js ''^$.*+?()[]{}|''))"
  by code_simp

lemma rx_test_class:
  "rx_test (OneOf cls) s \<longleftrightarrow> (\<exists>c \<in> set s. c \<in> set cls)"
proof
  assume "rx_test (OneOf cls) s"
  then obtain i where "exec False (OneOf cls) (if i = 0 then None else Some (s ! (i - 1))) (drop i s) \<noteq> None"
    unfolding rx_test_def list_ex_iff by blast
  then obtain c cs where "drop i s = c # cs" and "c \<in> set cls"
    by (auto simp: exec_class split: list.splits if_splits)
  moreover from this have "c \<in> set s"
    by (metis in_set_dropD list.set_intros(1))
  ultimately show "\<exists>c \<in> set s. c \<in> set cls" by blast
next
  assume "\<exists>c \<in> set s. c \<in> set cls"
  then obtain c where "c \<in> set s" and "c \<in> set cls" by blast
  then obtain i where i: "i < length s" and c: "s ! i \<in> set cls"
    unfolding in_set_conv_nth [of c s] by blast
  have "drop i s = s ! i # drop (Suc i) s"
    using i by (simp add: Cons_nth_drop_Suc)
  then have "exec False (OneOf cls) (if i = 0 then None else Some (s ! (i - 1))) (drop i s) \<noteq> None"
    using c by (simp add: exec_class)
  then show "rx_test (OneOf cls) s"
    using i unfolding rx_test_def list_ex_iff by (intro bexI [where x = i]) simp_all
qed

lemma concat_unescaped:
  "\<forall>c \<in> set s. c \<notin> set cls \<Longrightarrow> concat (map (\<lambda>c. if c \<in> set cls then [BSL, c] else [c]) s) = s"
  by (induction s) simp_all

lemma escapeRegExp_closed:
  "escapeRegExp s = concat (map (\<lambda>c. if reRegExpChar c then [BSL, c] else [c]) s)"
proof (cases "s \<noteq> [] \<and> rx_test (OneOf (BSL # js ''^$.*+?()[]{}|'')) s")
  case True
  then show ?thesis
    unfolding escapeRegExp_def replace_source_def parse_reRegExpChar reRegExpChar_def
    by (simp add: replace_regex_class js_def)
next
  case False
  then have "\<forall>c \<in> set s. c \<notin> set (BSL # js ''^$.*+?()[]{}|'')"
    unfolding rx_test_class by (cases s) auto
  from concat_unescaped [OF this] False show ?thesis
    unfolding escapeRegExp_def parse_reRegExpChar reRegExpChar_def
    by auto
qed

lemma parse_escaped_star: "parse_pattern (BSL # BSL # BSL # js ''*'') = Some (mk_seq (map Chr (BSL # js ''*'')))"
  by code_simp

lemma parse_trailing_slash: "parse_pattern (BSL # js ''/$'') = Some (Seq (Chr 0x2F) Eol)"
  by code_simp

lemma parse_slash: "parse_pattern (BSL # js ''/'') = Some (mk_seq (map Chr (js ''/'')))"
  by code_simp

lemma compile_from_closed:
  "compile_from from =
     replace_all (js ''/'') (BSL # js ''/'')
       (replace_trailing_slash (js ''(?:/.|/?$)'')
          (replace_all (BSL # js ''*'') (js ''(.*)'') (escapeRegExp from)))"
proof -
  have 1: "\<not> has_dollar_pattern (js ''(.*)'')" by code_simp
  have 2: "\<not> has_dollar_pattern (js ''(?:/.|/?$)'')" by code_simp
  have 3: "\<not> has_dollar_pattern (BSL # js ''/'')" by code_simp
  have a: "replace_source True (BSL # BSL # BSL # js ''*'') (js ''(.*)'') s
             = replace_all (BSL # js ''*'') (js ''(.*)'') s" for s
    unfolding replace_source_def parse_escaped_star option.case
    by (rule replace_regex_literal [OF _ 1]) simp
  have b: "replace_source False (BSL # js ''/$'') (js ''(?:/.|/?$)'') s
             = replace_trailing_slash (js ''(?:/.|/?$)'') s" for s
    unfolding replace_source_def parse_trailing_slash
    by (simp add: replace_regex_trailing_slash [OF 2])
  have c: "replace_source True (BSL # js ''/'') (BSL # js ''/'') s
             = replace_all (js ''/'') (BSL # js ''/'') s" for s
    unfolding replace_source_def parse_slash option.case
    by (rule replace_regex_literal [OF _ 3]) (simp add: js_def)
  show ?thesis
    unfolding compile_from_def a b c ..
qed

section \<open>Properties of the rule compiler\<close>

lemma reRegExpChar_iff:
  "reRegExpChar c \<longleftrightarrow> c = 0x5C \<or> c = 0x5E \<or> c = 0x24 \<or> c = 0x2E \<or> c = 0x2A \<or> c = 0x2B \<or>
     c = 0x3F \<or> c = 0x28 \<or> c = 0x29 \<or> c = 0x5B \<or> c = 0x5D \<or> c = 0x7B \<or> c = 0x7D \<or> c = 0x7C"
  by (simp add: reRegExpChar_def js_def)

lemma syntax_character_iff:
  "syntax_character c \<longleftrightarrow> c = 0x5C \<or> c = 0x5E \<or> c = 0x24 \<or> c = 0x2E \<or> c = 0x2A \<or> c = 0x2B \<or>
     c = 0x3F \<or> c = 0x28 \<or> c = 0x29 \<or> c = 0x5B \<or> c = 0x5D \<or> c = 0x7B \<or> c = 0x7D \<or> c = 0x7C"
  by (auto simp: syntax_character_def js_def)

lemma escapeRegExp_Cons:
  "escapeRegExp (c # cs) = (if reRegExpChar c then [BSL, c] else [c]) @ escapeRegExp cs"
  by (simp add: escapeRegExp_closed)

lemma escapeRegExp_Nil: "escapeRegExp [] = []"
  by (simp add: escapeRegExp_closed)

lemma escapeRegExp_no_star_head: "\<not> prefix [0x2A] (escapeRegExp cs)"
  by (cases cs) (auto simp: escapeRegExp_Cons escapeRegExp_Nil reRegExpChar_iff)

lemma replace_stars:
  "replace_all (BSL # js ''*'') (js ''(.*)'') (escapeRegExp s) = concat (map star_piece s)"
proof (induction s)
  case Nil
  show ?case by (simp add: escapeRegExp_Nil)
next
  case (Cons c cs)
  have nh: "\<not> prefix [0x2A] (escapeRegExp cs)" by (rule escapeRegExp_no_star_head)
  show ?case
  proof (cases "c = 0x2A")
    case True
    then show ?thesis using Cons
      by (simp add: escapeRegExp_Cons reRegExpChar_iff star_piece_def js_def)
  next
    case False
    note ns = this
    show ?thesis
    proof (cases "reRegExpChar c")
      case True
      have "replace_all (BSL # js ''*'') (js ''(.*)'') (c # escapeRegExp cs)
            = c # replace_all (BSL # js ''*'') (js ''(.*)'') (escapeRegExp cs)"
        using nh by (cases "escapeRegExp cs") (auto simp: js_def)
      then show ?thesis using True ns Cons
        by (simp add: escapeRegExp_Cons star_piece_def js_def)
    next
      case False
      then have "c \<noteq> BSL" by (auto simp: reRegExpChar_iff)
      then show ?thesis using False ns Cons
        by (simp add: escapeRegExp_Cons star_piece_def js_def)
    qed
  qed
qed

lemma replace_slashes:
  "replace_all (js ''/'') (BSL # js ''/'') s
     = concat (map (\<lambda>c. if c = 0x2F then [BSL, 0x2F] else [c]) s)"
  by (induction s) (simp_all add: js_def)

lemma star_piece_not_Nil: "star_piece c \<noteq> []"
  by (simp add: star_piece_def js_def)

lemma last_star_piece: "last (star_piece c) = 0x2F \<longleftrightarrow> c = 0x2F"
  by (auto simp: star_piece_def js_def reRegExpChar_iff)

lemma butlast_star_piece_slash: "butlast (star_piece 0x2F) = []"
  by (simp add: star_piece_def reRegExpChar_iff)

lemma concat_pieces_snoc:
  "concat (map star_piece (xs @ [c])) = concat (map star_piece xs) @ star_piece c"
  by simp

lemma trailing_slash_pieces:
  "replace_trailing_slash rep (concat (map star_piece s))
     = (if s \<noteq> [] \<and> last s = 0x2F then concat (map star_piece (butlast s)) @ rep
        else concat (map star_piece s))"
proof (cases s rule: rev_cases)
  case Nil
  then show ?thesis by (simp add: replace_trailing_slash_def)
next
  case (snoc xs c)
  have l: "last (concat (map star_piece xs) @ star_piece c) = last (star_piece c)"
    by (simp add: star_piece_not_Nil)
  have b: "butlast (concat (map star_piece xs) @ star_piece c)
             = concat (map star_piece xs) @ butlast (star_piece c)"
    by (simp add: butlast_append star_piece_not_Nil)
  show ?thesis
    unfolding snoc concat_pieces_snoc replace_trailing_slash_def l b
    by (auto simp: last_star_piece star_piece_not_Nil butlast_star_piece_slash)
qed

lemma slash_star_piece:
  "concat (map (\<lambda>c. if c = 0x2F then [BSL, 0x2F] else [c]) (star_piece c)) = piece c"
  by (simp add: star_piece_def piece_def js_def reRegExpChar_iff syntax_character_iff)

lemma slash_pieces:
  "concat (map (\<lambda>c. if c = 0x2F then [BSL, 0x2F] else [c]) (concat (map star_piece s)))
     = concat (map piece s)"
  by (induction s) (simp_all add: slash_star_piece)

lemma slash_tail:
  "concat (map (\<lambda>c. if c = 0x2F then [BSL, 0x2F] else [c]) (js ''(?:/.|/?$)'')) = tail_alternation"
  by (simp add: js_def tail_alternation_def)

lemma compile_from_pieces:
  "compile_from from =
     (if from \<noteq> [] \<and> last from = 0x2F
      then concat (map piece (butlast from)) @ tail_alternation
      else concat (map piece from))"
  unfolding compile_from_closed replace_stars trailing_slash_pieces replace_slashes
  by (simp add: slash_pieces slash_tail)

lemma split_lines_append:
  "no_terminator l \<Longrightarrow> is_line_terminator t \<Longrightarrow> split_lines (l @ t # rest) = l # split_lines rest"
  by (induction l) (simp_all add: no_terminator_def)

lemma split_lines_single: "no_terminator l \<Longrightarrow> split_lines l = [l]"
  by (induction l) (simp_all add: no_terminator_def)

lemma terminator_not_blank: "is_line_terminator t \<Longrightarrow> \<not> is_blank t"
  by (auto simp: is_line_terminator_def is_blank_def)

lemma terminator_not_non_space: "is_line_terminator t \<Longrightarrow> \<not> non_space t"
  by (simp add: non_space_def is_space_def)

lemma dropWhile_stop: "\<not> P t \<Longrightarrow> dropWhile P (l @ t # rest) = dropWhile P l @ t # rest"
  by (induction l) simp_all

lemma takeWhile_stop: "\<not> P t \<Longrightarrow> takeWhile P (l @ t # rest) = takeWhile P l"
  by (induction l) simp_all

lemma match_rule_line:
  assumes "is_line_terminator t"
  shows "match_rule (l @ t # rest) = map_option (\<lambda>(r, x). (r, x @ t # rest)) (match_rule l)"
  using terminator_not_blank [OF assms] terminator_not_non_space [OF assms]
  by (simp add: match_rule_def Let_def dropWhile_stop takeWhile_stop)

lemma match_rule_Nil: "match_rule [] = None"
  by (simp add: match_rule_def)

lemma set_dropWhile_subset: "set (dropWhile P xs) \<subseteq> set xs"
  by (induction xs) auto

lemma match_rule_rest_subset:
  assumes "match_rule s = Some (r, rest)"
  shows "set rest \<subseteq> set s"
proof -
  have "rest = dropWhile non_space (dropWhile is_blank (dropWhile non_space
            (dropWhile is_blank (dropWhile non_space (dropWhile is_blank s)))))
        \<or> rest = dropWhile non_space (dropWhile is_blank (dropWhile non_space (dropWhile is_blank s)))"
    using assms by (auto simp: match_rule_def Let_def split: if_splits)
  then show ?thesis
    by (metis set_dropWhile_subset subset_trans)
qed

lemma scan_rules_skip:
  "no_terminator x \<Longrightarrow> is_line_terminator t \<Longrightarrow>
     scan_rules False (x @ t # rest) = scan_rules True rest"
  by (induction x) (simp_all add: no_terminator_def)

lemma scan_rules_skip_end: "no_terminator x \<Longrightarrow> scan_rules False x = []"
  by (induction x) (simp_all add: no_terminator_def)

lemma scan_rules_first_line:
  assumes l: "no_terminator l" and t: "is_line_terminator t"
  shows "scan_rules True (l @ t # rest)
           = (case line_rule l of None \<Rightarrow> [] | Some r \<Rightarrow> [r]) @ scan_rules True rest"
proof (cases l)
  case Nil
  have "match_rule (t # rest) = None"
    using match_rule_line [OF t, of "[]" rest] by (simp add: match_rule_Nil)
  then show ?thesis using Nil t by (simp add: line_rule_def match_rule_Nil)
next
  case (Cons c l')
  then have c: "\<not> is_line_terminator c" and l': "no_terminator l'"
    using l by (simp_all add: no_terminator_def)
  show ?thesis
  proof (cases "match_rule l")
    case None
    then have "match_rule (c # l' @ t # rest) = None"
      using match_rule_line [OF t, of l rest] Cons by simp
    then show ?thesis
      using None Cons c scan_rules_skip [OF l' t] by (simp add: line_rule_def)
  next
    case (Some p)
    obtain r x where p: "p = (r, x)" by (cases p)
    have m: "match_rule (c # l' @ t # rest) = Some (r, x @ t # rest)"
      using match_rule_line [OF t, of l rest] Some p Cons by simp
    have "set x \<subseteq> set l" using Some p by (auto dest: match_rule_rest_subset)
    then have "no_terminator x" using l by (auto simp: no_terminator_def)
    then show ?thesis
      using m Some p Cons scan_rules_skip [OF _ t] by (simp add: line_rule_def)
  qed
qed

lemma scan_rules_last_line:
  assumes l: "no_terminator l"
  shows "scan_rules True l = (case line_rule l of None \<Rightarrow> [] | Some r \<Rightarrow> [r])"
proof (cases l)
  case Nil
  then show ?thesis by (simp add: line_rule_def match_rule_Nil)
next
  case (Cons c l')
  then have c: "\<not> is_line_terminator c" and l': "no_terminator l'"
    using l by (simp_all add: no_terminator_def)
  show ?thesis
  proof (cases "match_rule l")
    case None
    then show ?thesis
      using Cons c scan_rules_skip_end [OF l'] by (simp add: line_rule_def)
  next
    case (Some p)
    obtain r x where p: "p = (r, x)" by (cases p)
    have "set x \<subseteq> set l" using Some p by (auto dest: match_rule_rest_subset)
    then have "no_terminator x" using l by (auto simp: no_terminator_def)
    then show ?thesis
      using Some p Cons scan_rules_skip_end by (simp add: line_rule_def)
  qed
qed

lemma text_cases:
  obtains (last) "no_terminator s"
  | (more) l t rest where "s = l @ t # rest" "no_terminator l" "is_line_terminator t"
proof (cases "no_terminator s")
  case True
  then show ?thesis by (rule last)
next
  case False
  let ?P = "\<lambda>c. \<not> is_line_terminator c"
  from False have ne: "dropWhile ?P s \<noteq> []"
    by (auto simp: no_terminator_def)
  then obtain t rest where d: "dropWhile ?P s = t # rest" by (cases "dropWhile ?P s") auto
  then have "is_line_terminator t" using hd_dropWhile [OF ne] by simp
  moreover have "s = takeWhile ?P s @ t # rest" using d by (metis takeWhile_dropWhile_id)
  moreover have "no_terminator (takeWhile ?P s)"
    by (auto simp: no_terminator_def dest: set_takeWhileD)
  ultimately show ?thesis by (rule more [rotated 2])
qed

lemma map_filter_Cons:
  "List.map_filter f (x # xs) = (case f x of None \<Rightarrow> [] | Some y \<Rightarrow> [y]) @ List.map_filter f xs"
  by (simp add: List.map_filter_def split: option.splits)

lemma scan_rules_lines:
  "scan_rules True s = List.map_filter line_rule (split_lines s)"
proof (induction "length s" arbitrary: s rule: less_induct)
  case less
  show ?case
  proof (cases s rule: text_cases)
    case last
    then show ?thesis
      by (simp add: scan_rules_last_line split_lines_single List.map_filter_def split: option.splits)
  next
    case (more l t rest)
    have "length rest < length s" using more by simp
    then have "scan_rules True rest = List.map_filter line_rule (split_lines rest)"
      by (rule less)
    then show ?thesis
      using more by (simp add: scan_rules_first_line split_lines_append List.map_filter_simps split: option.splits)
  qed
qed

lemma takeWhile_run:
  "\<forall>x \<in> set xs. P x \<Longrightarrow> ys = [] \<or> \<not> P (hd ys) \<Longrightarrow> takeWhile P (xs @ ys) = xs"
  by (cases ys) (simp_all add: takeWhile_append2)

lemma dropWhile_run:
  "\<forall>x \<in> set xs. P x \<Longrightarrow> ys = [] \<or> \<not> P (hd ys) \<Longrightarrow> dropWhile P (xs @ ys) = ys"
  by (cases ys) (simp_all add: dropWhile_append2)

lemma match_rule_tokens:
  assumes ws: "\<forall>c \<in> set ws. is_blank c"
    and fr: "from \<noteq> []" "\<forall>c \<in> set from. non_space c"
    and ws': "ws' \<noteq> []" "\<forall>c \<in> set ws'. is_blank c"
    and tk: "to \<noteq> []" "\<forall>c \<in> set to. non_space c"
    and rest: "rest = [] \<or> \<not> non_space (hd rest)"
  shows "match_rule (ws @ from @ ws' @ to @ rest) =
     (let s5 = dropWhile is_blank rest; status = takeWhile non_space s5
      in if length s5 < length rest \<and> status \<noteq> []
         then Some (\<lparr>rule_from = from, rule_to = to, rule_status = Some status\<rparr>, dropWhile non_space s5)
         else Some (\<lparr>rule_from = from, rule_to = to, rule_status = None\<rparr>, rest))"
proof -
  have h1: "\<not> is_blank (hd from)" "\<not> non_space (hd ws')" "\<not> is_blank (hd to)"
    using fr ws' tk by (auto simp: non_space_not_blank blank_not_non_space)
  have s1: "dropWhile is_blank (ws @ from @ ws' @ to @ rest) = from @ ws' @ to @ rest"
    using ws fr h1 by (intro dropWhile_run) simp_all
  have f: "takeWhile non_space (from @ ws' @ to @ rest) = from"
    using fr ws' h1 by (intro takeWhile_run) simp_all
  have s2: "dropWhile non_space (from @ ws' @ to @ rest) = ws' @ to @ rest"
    using fr ws' h1 by (intro dropWhile_run) simp_all
  have s3: "dropWhile is_blank (ws' @ to @ rest) = to @ rest"
    using ws' tk h1 by (intro dropWhile_run) simp_all
  have t: "takeWhile non_space (to @ rest) = to"
    using tk rest by (intro takeWhile_run) simp_all
  have s4: "dropWhile non_space (to @ rest) = rest"
    using tk rest by (intro dropWhile_run) simp_all
  show ?thesis
    using fr ws' tk by (simp add: match_rule_def Let_def s1 f s2 s3 t s4)
qed


lemma entries_line:
  "no_terminator l \<Longrightarrow> entries l = (case line_rule l of None \<Rightarrow> [] | Some r \<Rightarrow> [entry r])"
  by (simp add: entries_scan scan_rules_last_line split: option.splits)

lemma non_space_no_terminator: "non_space c \<Longrightarrow> \<not> is_line_terminator c"
  by (simp add: non_space_def is_space_def)

lemma blank_no_terminator: "is_blank c \<Longrightarrow> \<not> is_line_terminator c"
  by (auto simp: is_blank_def is_line_terminator_def)

text \<open>
  C6, amended. The second and the third token of a rule line reach the entry as they are
  written, between the quotes and before the closing bracket. Without a third token the
  status literal is \<^verbatim>\<open>undefined\<close>, so the entry differs from the entry of every rule
  line with a written status but the status \<^verbatim>\<open>undefined\<close> itself.
\<close>

theorem to_and_status_verbatim:
  assumes "\<forall>c \<in> set ws. is_blank c"
    and "from \<noteq> []" "\<forall>c \<in> set from. non_space c"
    and "ws' \<noteq> []" "\<forall>c \<in> set ws'. is_blank c"
    and "to \<noteq> []" "\<forall>c \<in> set to. non_space c"
    and "ws'' \<noteq> []" "\<forall>c \<in> set ws''. is_blank c"
    and "status \<noteq> []" "\<forall>c \<in> set status. non_space c"
  shows "entries (ws @ from @ ws' @ to @ ws'' @ status) =
           [js ''[/^'' @ compile_from from @ js ''/,'' @ [QUOTE] @ to @ [QUOTE] @ js '',''
              @ status @ js '']'']
       \<and> entries (ws @ from @ ws' @ to) =
           [js ''[/^'' @ compile_from from @ js ''/,'' @ [QUOTE] @ to @ [QUOTE] @ js '',''
              @ js ''undefined'' @ js '']'']
       \<and> (entries (ws @ from @ ws' @ to @ ws'' @ status) = entries (ws @ from @ ws' @ to)
            \<longleftrightarrow> status = js ''undefined'')"
proof -
  have nt: "no_terminator (ws @ from @ ws' @ to @ ws'' @ status)"
    "no_terminator (ws @ from @ ws' @ to)"
    using assms by (auto simp: no_terminator_def non_space_no_terminator blank_no_terminator)
  have b: "\<not> non_space (hd ws'')"
    using assms by (simp add: blank_not_non_space)
  have d: "dropWhile is_blank (ws'' @ status) = status"
    using assms by (intro dropWhile_run) (simp_all add: non_space_not_blank)
  have t: "takeWhile non_space status = status"
    using assms by simp
  have m1: "match_rule (ws @ from @ ws' @ to @ ws'' @ status) =
      Some (\<lparr>rule_from = from, rule_to = to, rule_status = Some status\<rparr>, [])"
    using assms b match_rule_tokens [of ws "from" ws' to "ws'' @ status"]
    by (simp add: d t Let_def)
  have m2: "match_rule (ws @ from @ ws' @ to) =
      Some (\<lparr>rule_from = from, rule_to = to, rule_status = None\<rparr>, [])"
    using assms match_rule_tokens [of ws "from" ws' to "[]"] by simp
  have e1: "entries (ws @ from @ ws' @ to @ ws'' @ status) =
           [js ''[/^'' @ compile_from from @ js ''/,'' @ [QUOTE] @ to @ [QUOTE] @ js '',''
              @ status @ js '']'']"
    by (simp add: entries_line [OF nt(1)] line_rule_def m1 entry_def status_literal_def)
  have e2: "entries (ws @ from @ ws' @ to) =
           [js ''[/^'' @ compile_from from @ js ''/,'' @ [QUOTE] @ to @ [QUOTE] @ js '',''
              @ js ''undefined'' @ js '']'']"
    by (simp add: entries_line [OF nt(2)] line_rule_def m2 entry_def status_literal_def)
  show ?thesis
    unfolding e1 e2 by simp
qed

theorem to_and_status_verbatim_witness:
  "entries (js ''/a /b 0'') = [js ''[/^'' @ BSL # js ''/a/,'' @ [QUOTE] @ js ''/b'' @ [QUOTE] @ js '',0]'']
   \<and> entries (js ''/a /b'') = [js ''[/^'' @ BSL # js ''/a/,'' @ [QUOTE] @ js ''/b'' @ [QUOTE] @ js '',undefined]'']
   \<and> entries (js ''/a /b 0'') \<noteq> entries (js ''/a /b'')"
proof -
  have c: "compile_from (js ''/a'') = BSL # js ''/a''"
    by code_simp
  have ns: "\<forall>c \<in> set (js ''/a''). non_space c" "\<forall>c \<in> set (js ''/b''). non_space c"
    "\<forall>c \<in> set (js ''0''). non_space c"
    by (simp_all add: js_def non_space_def is_space_def is_line_terminator_def)
  have bl: "\<forall>c \<in> set (js '' ''). is_blank c" "\<forall>c \<in> set []. is_blank c"
    by (simp_all add: js_def is_blank_def)
  have ne: "js ''/a'' \<noteq> []" "js '' '' \<noteq> []" "js ''/b'' \<noteq> []" "js ''0'' \<noteq> []"
    by (simp_all add: js_def)
  have "js ''0'' \<noteq> js ''undefined''"
    by (simp add: js_def)
  then show ?thesis
    using to_and_status_verbatim [OF bl(2) ne(1) ns(1) ne(2) bl(1) ne(3) ns(2) ne(2) bl(1) ne(4) ns(3)] c
    by (simp add: js_def)
qed

text \<open>
  C6 as stated fails: \<^verbatim>\<open>undefined\<close> is a falsy literal that a rule line can spell out,
  and the entry is then the entry of the line without a status.
\<close>

theorem absent_status_not_distinct_counterexample:
  "entries (js ''/a /b undefined'') = entries (js ''/a /b'')"
  by code_simp

lemma match_rule_grammar:
  assumes "match_rule l = Some (r, rest)"
  shows "matches_grammar l"
proof -
  define ws where "ws = takeWhile is_blank l"
  define s1 where "s1 = dropWhile is_blank l"
  define fr where "fr = takeWhile non_space s1"
  define s2 where "s2 = dropWhile non_space s1"
  define ws' where "ws' = takeWhile is_blank s2"
  define s3 where "s3 = dropWhile is_blank s2"
  define tk where "tk = takeWhile non_space s3"
  define s4 where "s4 = dropWhile non_space s3"
  have l: "l = ws @ fr @ ws' @ tk @ s4"
    unfolding ws_def fr_def ws'_def tk_def s4_def s3_def s2_def s1_def by simp
  from assms have c: "fr \<noteq> []" "length s3 \<noteq> length s2" "tk \<noteq> []"
    by (auto simp: match_rule_def Let_def fr_def s1_def s2_def s3_def tk_def split: if_splits)
  have "s2 = ws' @ s3"
    unfolding ws'_def s3_def by simp
  with c(2) have w: "ws' \<noteq> []"
    by auto
  have a: "\<forall>c \<in> set ws. is_blank c" "\<forall>c \<in> set fr. non_space c"
    "\<forall>c \<in> set ws'. is_blank c" "\<forall>c \<in> set tk. non_space c"
    unfolding ws_def fr_def ws'_def tk_def by (auto dest: set_takeWhileD)
  show ?thesis
    unfolding matches_grammar_def using l c(1,3) w a by blast
qed

lemma grammar_match_rule:
  assumes "matches_grammar l"
  shows "match_rule l \<noteq> None"
proof -
  from assms obtain ws fr ws' tk rest where l: "l = ws @ fr @ ws' @ tk @ rest"
    and a: "\<forall>c \<in> set ws. is_blank c" "fr \<noteq> []" "\<forall>c \<in> set fr. non_space c"
      "ws' \<noteq> []" "\<forall>c \<in> set ws'. is_blank c" "tk \<noteq> []" "\<forall>c \<in> set tk. non_space c"
    unfolding matches_grammar_def by blast
  define tk' where "tk' = tk @ takeWhile non_space rest"
  define rest' where "rest' = dropWhile non_space rest"
  have l': "l = ws @ fr @ ws' @ tk' @ rest'"
    unfolding l tk'_def rest'_def by simp
  have t: "tk' \<noteq> []" "\<forall>c \<in> set tk'. non_space c"
    using a unfolding tk'_def by (auto dest: set_takeWhileD)
  have r: "rest' = [] \<or> \<not> non_space (hd rest')"
    unfolding rest'_def by (metis hd_dropWhile)
  show ?thesis
    unfolding l' using match_rule_tokens [OF a(1-5) t r] by (simp add: Let_def)
qed

lemma line_rule_grammar: "line_rule l \<noteq> None \<longleftrightarrow> matches_grammar l"
  using match_rule_grammar [of l] grammar_match_rule [of l]
  by (cases "match_rule l") (auto simp: line_rule_def)

lemma line_rule_from:
  "line_rule l = Some r \<Longrightarrow> rule_from r = takeWhile non_space (dropWhile is_blank l)"
  by (auto simp: line_rule_def match_rule_def Let_def split: if_splits)

lemma entries_lines:
  "entries t = concat (map (\<lambda>l. case line_rule l of None \<Rightarrow> [] | Some r \<Rightarrow> [entry r]) (split_lines t))"
proof -
  have "map entry (List.map_filter line_rule ls)
          = concat (map (\<lambda>l. case line_rule l of None \<Rightarrow> [] | Some r \<Rightarrow> [entry r]) ls)" for ls
    by (induction ls) (simp_all add: List.map_filter_simps split: option.splits)
  then show ?thesis
    by (simp add: entries_scan scan_rules_lines)
qed

text \<open>
  C4, amended. Each line of the table gives one entry when it matches the grammar, with
  tabs and spaces as its whitespace, and none otherwise. The first token is what follows
  the leading tabs and spaces, up to the next whitespace: no list marker is skipped.
\<close>

theorem entry_iff_line_matches_grammar:
  "entries t = concat (map (\<lambda>l. case line_rule l of None \<Rightarrow> [] | Some r \<Rightarrow> [entry r]) (split_lines t))
   \<and> (line_rule l \<noteq> None \<longleftrightarrow> matches_grammar l)
   \<and> (line_rule l = Some r \<longrightarrow> rule_from r = takeWhile non_space (dropWhile is_blank l))"
  using entries_lines line_rule_grammar line_rule_from by blast

theorem entry_iff_line_matches_grammar_witness:
  "matches_grammar (js ''  /a /b 301'')
   \<and> line_rule (js ''  /a /b 301'') = Some \<lparr>rule_from = js ''/a'', rule_to = js ''/b'', rule_status = Some (js ''301'')\<rparr>
   \<and> \<not> matches_grammar (js ''/a'')
   \<and> entries (js ''  /a /b 301'' @ 0x0A # js ''/a'') = [js ''[/^'' @ BSL # js ''/a/,'' @ [QUOTE] @ js ''/b'' @ [QUOTE] @ js '',301]'']"
proof -
  have 1: "line_rule (js ''  /a /b 301'') = Some \<lparr>rule_from = js ''/a'', rule_to = js ''/b'', rule_status = Some (js ''301'')\<rparr>"
    by code_simp
  have 2: "line_rule (js ''/a'') = None"
    by code_simp
  have 3: "entries (js ''  /a /b 301'' @ 0x0A # js ''/a'') = [js ''[/^'' @ BSL # js ''/a/,'' @ [QUOTE] @ js ''/b'' @ [QUOTE] @ js '',301]'']"
    by code_simp
  show ?thesis
    using entry_iff_line_matches_grammar [of "[]" "js ''  /a /b 301''" "\<lparr>rule_from = js ''/a'', rule_to = js ''/b'', rule_status = Some (js ''301'')\<rparr>"]
      entry_iff_line_matches_grammar [of "[]" "js ''/a''" "\<lparr>rule_from = js ''/a'', rule_to = js ''/b'', rule_status = None\<rparr>"] 1 2 3
    by simp
qed

text \<open>
  C4 as stated fails: a leading list marker is not skipped, it is the first token.
\<close>

theorem list_marker_not_ignored_counterexample:
  "map rule_from (redirect_rules (js ''- /a /b 301'')) = [js ''-'']
   \<and> entries (js ''- /a /b 301'') = [js ''[/^-/,'' @ [QUOTE] @ js ''/a'' @ [QUOTE] @ js '',/b]'']"
  by code_simp

lemma split_lines_not_Nil: "split_lines t \<noteq> []"
  by (induction t) (auto split: list.splits)

lemma split_lines_terminator:
  "is_line_terminator c \<Longrightarrow> split_lines (t1 @ c # t2) = split_lines t1 @ split_lines t2"
proof (induction t1)
  case Nil
  then show ?case by simp
next
  case (Cons a t1)
  then show ?case
    using split_lines_not_Nil [of t1] by (cases "split_lines t1") auto
qed

lemma entries_terminator:
  "is_line_terminator c \<Longrightarrow> entries (t1 @ c # t2) = entries t1 @ entries t2"
  by (simp add: entries_lines split_lines_terminator)

lemma prefix_within:
  assumes "prefix p (xs @ ys)" "length p \<le> length xs"
  shows "prefix p xs"
  using assms by (metis prefix_length_prefix prefixI prefix_order.dual_order.refl append_prefixD prefix_append)

lemma split_first_found:
  assumes "pat \<noteq> []" "\<not> sublist pat (before @ butlast pat)"
  shows "split_first pat (before @ pat @ after) = Some (before, after)"
  using assms(2)
proof (induction before)
  case Nil
  show ?case
    using assms(1) by (cases pat) simp_all
next
  case (Cons c before)
  have n: "\<not> prefix pat (c # before @ pat @ after)"
  proof
    assume p: "prefix pat (c # before @ pat @ after)"
    have "length pat \<le> length ((c # before) @ butlast pat)"
      by simp
    moreover have "butlast pat @ [last pat] = pat"
      using assms(1) by simp
    then have "c # before @ pat @ after = ((c # before) @ butlast pat) @ [last pat] @ after"
      by (metis append.assoc append_Cons)
    with p have "prefix pat (((c # before) @ butlast pat) @ [last pat] @ after)"
      by simp
    ultimately have "prefix pat ((c # before) @ butlast pat)"
      by (rule prefix_within [rotated])
    then have "sublist pat ((c # before) @ butlast pat)"
      by (rule prefix_imp_sublist)
    with Cons.prems show False by simp
  qed
  have "\<not> sublist pat (before @ butlast pat)"
    using Cons.prems by (auto simp: sublist_Cons_right)
  then show ?case
    using n Cons.IH by simp
qed

lemma split_first_none: "pat \<noteq> [] \<Longrightarrow> \<not> sublist pat s \<Longrightarrow> split_first pat s = None"
proof (induction s)
  case Nil
  then show ?case by simp
next
  case (Cons c s)
  then have "\<not> prefix pat (c # s)" "\<not> sublist pat s"
    by (auto simp: sublist_Cons_right)
  with Cons show ?case by simp
qed

lemma placeholder_not_Nil: "placeholder \<noteq> []"
  by (simp add: placeholder_def js_def)


text \<open>
  When the script holds the placeholder and the joined text holds no \<^verbatim>\<open>$\<close> pattern,
  the first occurrence of the placeholder, and only that one, is replaced by the joined
  text; a script without the placeholder stays as it is.
\<close>

lemma placeholder_replaced_once:
  "(\<not> sublist placeholder (pre @ butlast placeholder)
        \<and> \<not> has_dollar_pattern (join (js '','') (entries t))
      \<longrightarrow> insert_redirects t (pre @ placeholder @ post) = pre @ join (js '','') (entries t) @ post)
   \<and> (\<not> sublist placeholder sw \<longrightarrow> insert_redirects t sw = sw)"
proof (intro conjI impI)
  assume a: "\<not> sublist placeholder (pre @ butlast placeholder)
              \<and> \<not> has_dollar_pattern (join (js '','') (entries t))"
  then have "split_first placeholder (pre @ placeholder @ post) = Some (pre, post)"
    by (simp add: split_first_found placeholder_not_Nil)
  with a show "insert_redirects t (pre @ placeholder @ post) = pre @ join (js '','') (entries t) @ post"
    by (simp add: insert_redirects_def replace_first_def get_substitution_plain)
next
  assume "\<not> sublist placeholder sw"
  then have "split_first placeholder sw = None"
    by (simp add: split_first_none placeholder_not_Nil)
  then show "insert_redirects t sw = sw"
    by (simp add: insert_redirects_def replace_first_def)
qed

text \<open>
  C5 at a failing input. The table has two rules, and the target of the first one ends
  with a dollar sign. The joined text is one triple per rule, in the order of the table,
  with a comma between them. In it the dollar sign stands before the quote that closes
  the target, and \<^verbatim>\<open>$'\<close> in a replacement text stands for the text after the match: what
  the task writes in place of the placeholder is not the joined text.
\<close>

theorem joined_entries_expanded_on_insertion:
  "join (js '','') (entries (js ''/a /b$'' @ 0x0A # js ''/c /d 301''))
     = js ''[/^'' @ BSL # js ''/a/,'' @ [QUOTE] @ js ''/b$'' @ [QUOTE] @ js '',undefined],[/^''
         @ BSL # js ''/c/,'' @ [QUOTE] @ js ''/d'' @ [QUOTE] @ js '',301]''
   \<and> build_sw [''_site/_redirects'' \<mapsto> js ''/a /b$'' @ 0x0A # js ''/c /d 301'',
               ''_site/sw.js'' \<mapsto> js ''x/*insert_redirect*/y'']
     = Inr [''_site/_redirects'' \<mapsto> js ''/a /b$'' @ 0x0A # js ''/c /d 301'',
            ''_site/sw.js'' \<mapsto> js ''x[/^'' @ BSL # js ''/a/,'' @ [QUOTE] @ js ''/by,undefined],[/^''
                @ BSL # js ''/c/,'' @ [QUOTE] @ js ''/d'' @ [QUOTE] @ js '',301]y'']
   \<and> insert_redirects (js ''/a /b$'' @ 0x0A # js ''/c /d 301'') (js ''x/*insert_redirect*/y'')
     \<noteq> js ''x'' @ join (js '','') (entries (js ''/a /b$'' @ 0x0A # js ''/c /d 301'')) @ js ''y''"
proof -
  have 1: "join (js '','') (entries (js ''/a /b$'' @ 0x0A # js ''/c /d 301''))
     = js ''[/^'' @ BSL # js ''/a/,'' @ [QUOTE] @ js ''/b$'' @ [QUOTE] @ js '',undefined],[/^''
         @ BSL # js ''/c/,'' @ [QUOTE] @ js ''/d'' @ [QUOTE] @ js '',301]''"
    by code_simp
  have 2: "insert_redirects (js ''/a /b$'' @ 0x0A # js ''/c /d 301'') (js ''x/*insert_redirect*/y'')
     = js ''x[/^'' @ BSL # js ''/a/,'' @ [QUOTE] @ js ''/by,undefined],[/^''
                @ BSL # js ''/c/,'' @ [QUOTE] @ js ''/d'' @ [QUOTE] @ js '',301]y''"
    by code_simp
  have 3: "insert_redirects (js ''/a /b$'' @ 0x0A # js ''/c /d 301'') (js ''x/*insert_redirect*/y'')
     \<noteq> js ''x'' @ join (js '','') (entries (js ''/a /b$'' @ 0x0A # js ''/c /d 301'')) @ js ''y''"
    by code_simp
  have 4: "build_sw [''_site/_redirects'' \<mapsto> js ''/a /b$'' @ 0x0A # js ''/c /d 301'',
               ''_site/sw.js'' \<mapsto> js ''x/*insert_redirect*/y'']
     = Inr [''_site/_redirects'' \<mapsto> js ''/a /b$'' @ 0x0A # js ''/c /d 301'',
            ''_site/sw.js'' \<mapsto> js ''x[/^'' @ BSL # js ''/a/,'' @ [QUOTE] @ js ''/by,undefined],[/^''
                @ BSL # js ''/c/,'' @ [QUOTE] @ js ''/d'' @ [QUOTE] @ js '',301]y'']"
    unfolding 2 [symmetric] by (simp add: build_sw_def readSource_def)
  from 1 4 3 show ?thesis
    by (intro conjI)
qed

text \<open>
  C10 at a failing input. The target of the rule holds \<^verbatim>\<open>$&\<close>, and the replacement
  text goes through GetSubstitution: what is written in place of the first placeholder
  is not the compiled entry, it holds the placeholder itself where the entry has
  \<^verbatim>\<open>$&\<close>.
\<close>

theorem insert_redirects_dollar_pattern:
  "join (js '','') (entries (js ''/a/* /b?from=$&''))
     = js ''[/^'' @ BSL # js ''/a'' @ BSL # js ''/(.*)/,'' @ [QUOTE] @ js ''/b?from=$&'' @ [QUOTE]
         @ js '',undefined]''
   \<and> insert_redirects (js ''/a/* /b?from=$&'') (js ''x/*insert_redirect*/y/*insert_redirect*/'')
     = js ''x[/^'' @ BSL # js ''/a'' @ BSL # js ''/(.*)/,'' @ [QUOTE]
         @ js ''/b?from=/*insert_redirect*/'' @ [QUOTE] @ js '',undefined]y/*insert_redirect*/''"
  by code_simp

lemma blank_line_no_match: "\<forall>c \<in> set l. is_space c \<Longrightarrow> \<not> matches_grammar l"
  unfolding matches_grammar_def
proof (intro notI, elim exE conjE)
  fix ws fr ws' tk rest
  assume a: "\<forall>c \<in> set l. is_space c" "l = ws @ fr @ ws' @ tk @ rest" "fr \<noteq> []"
    "\<forall>c \<in> set fr. non_space c"
  then have "hd fr \<in> set l" "non_space (hd fr)"
    by simp_all
  with a(1) show False
    by (auto simp: non_space_def)
qed

lemma single_token_no_match: "\<forall>c \<in> set l. non_space c \<Longrightarrow> \<not> matches_grammar l"
  unfolding matches_grammar_def
proof (intro notI, elim exE conjE)
  fix ws fr ws' tk rest
  assume a: "\<forall>c \<in> set l. non_space c" "l = ws @ fr @ ws' @ tk @ rest" "ws' \<noteq> []"
    "\<forall>c \<in> set ws'. is_blank c"
  then have "hd ws' \<in> set l" "is_blank (hd ws')"
    by simp_all
  with a(1) show False
    by (auto dest: blank_not_non_space)
qed

lemma length_entries:
  "length (entries t) = length (filter matches_grammar (split_lines t))"
proof -
  have "length (concat (map (\<lambda>l. case line_rule l of None \<Rightarrow> [] | Some r \<Rightarrow> [entry r]) ls))
          = length (filter matches_grammar ls)" for ls
    by (induction ls) (auto simp: line_rule_grammar [symmetric] split: option.splits)
  then show ?thesis
    by (simp add: entries_lines)
qed

text \<open>
  C3, amended. Whatever the table holds, the task raises no error once both files are
  read, and there is one entry per line that matches the grammar: a line that does not
  match gives none. A blank line and a line with one token (such as \<^verbatim>\<open>#comment\<close>) do
  not match.
\<close>

theorem unmatched_lines_skipped_without_error:
  assumes "fs ''_site/_redirects'' = Some t" and "fs ''_site/sw.js'' = Some sw"
  shows "build_sw fs = Inr (fs(''_site/sw.js'' \<mapsto> insert_redirects t sw))
       \<and> length (entries t) = length (filter matches_grammar (split_lines t))
       \<and> ((\<forall>c \<in> set l. is_space c) \<longrightarrow> \<not> matches_grammar l)
       \<and> ((\<forall>c \<in> set l. non_space c) \<longrightarrow> \<not> matches_grammar l)"
  using assms blank_line_no_match [of l] single_token_no_match [of l] length_entries [of t]
  by (simp add: build_sw_def readSource_def)

theorem unmatched_lines_skipped_without_error_witness:
  "build_sw [''_site/_redirects'' \<mapsto> js ''  '' @ 0x0A # js ''#comment'' @ 0x0A # js ''/a /b'',
             ''_site/sw.js'' \<mapsto> js ''x'']
     = Inr [''_site/_redirects'' \<mapsto> js ''  '' @ 0x0A # js ''#comment'' @ 0x0A # js ''/a /b'',
            ''_site/sw.js'' \<mapsto> js ''x'']
   \<and> length (filter matches_grammar (split_lines (js ''  '' @ 0x0A # js ''#comment'' @ 0x0A # js ''/a /b''))) = 1
   \<and> \<not> matches_grammar (js ''  '')
   \<and> \<not> matches_grammar (js ''#comment'')"
proof -
  let ?t = "js ''  '' @ 0x0A # js ''#comment'' @ 0x0A # js ''/a /b''"
  let ?fs = "[''_site/_redirects'' \<mapsto> ?t, ''_site/sw.js'' \<mapsto> js ''x'']"
  have f: "?fs ''_site/_redirects'' = Some ?t" "?fs ''_site/sw.js'' = Some (js ''x'')"
    by simp_all
  have e: "length (entries ?t) = 1"
    by code_simp
  have i: "insert_redirects ?t (js ''x'') = js ''x''"
    by code_simp
  have s: "\<forall>c \<in> set (js ''  ''). is_space c"
    by (simp add: js_def is_space_def)
  have n: "\<forall>c \<in> set (js ''#comment''). non_space c"
    by (simp add: js_def non_space_def is_space_def is_line_terminator_def)
  note t1 = unmatched_lines_skipped_without_error [OF f, of "js ''  ''"]
  note t2 = unmatched_lines_skipped_without_error [OF f, of "js ''#comment''"]
  have u: "?fs(''_site/sw.js'' \<mapsto> js ''x'') = ?fs"
    by simp
  have a: "build_sw ?fs = Inr ?fs"
    using t1 [THEN conjunct1] unfolding i u .
  have b: "length (filter matches_grammar (split_lines ?t)) = 1"
    using t1 [THEN conjunct2, THEN conjunct1] e by simp
  note c = t1 [THEN conjunct2, THEN conjunct2, THEN conjunct1, THEN mp, OF s]
  note d = t2 [THEN conjunct2, THEN conjunct2, THEN conjunct2, THEN mp, OF n]
  from a b c d show ?thesis
    by (intro conjI)
qed

text \<open>
  C3 as stated fails: the comment line \<^verbatim>\<open># comment\<close> has two tokens, so it matches
  the grammar and is compiled into an entry.
\<close>

theorem comment_line_compiled_counterexample:
  "entries (js ''# comment'') = [js ''[/^#/,'' @ [QUOTE] @ js ''comment'' @ [QUOTE] @ js '',undefined]'']"
  by code_simp

lemma parse_piece:
  assumes "\<not> is_line_terminator c"
  shows "parse None (as, ts, q) st (piece c @ rest) = parse None (as, rx_piece c # ts, True) st rest"
proof (cases "c = 0x2A")
  case True
  then show ?thesis
    by (simp add: piece_def rx_piece_def js_def close_frame_def)
next
  case False
  show ?thesis
  proof (cases "syntax_character c \<or> c = 0x2F")
    case True
    with False show ?thesis
      by (simp add: piece_def rx_piece_def)
  next
    case False
    with \<open>c \<noteq> 0x2A\<close> assms show ?thesis
      by (simp add: piece_def rx_piece_def syntax_character_iff)
  qed
qed

lemma parse_pieces:
  assumes "\<forall>c \<in> set xs. \<not> is_line_terminator c"
  shows "parse None (as, ts, q) st (concat (map piece xs) @ rest)
           = parse None (as, rev (map rx_piece xs) @ ts, (if xs = [] then q else True)) st rest"
  using assms
proof (induction xs arbitrary: ts q)
  case Nil
  show ?case by simp
next
  case (Cons c xs)
  then have c: "\<not> is_line_terminator c" and xs: "\<forall>c \<in> set xs. \<not> is_line_terminator c"
    by simp_all
  have "parse None (as, ts, q) st (concat (map piece (c # xs)) @ rest)
          = parse None (as, rx_piece c # ts, True) st (concat (map piece xs) @ rest)"
    using parse_piece [OF c] by simp
  also have "\<dots> = parse None (as, rev (map rx_piece xs) @ rx_piece c # ts, True) st rest"
    using Cons.IH [OF xs, of "rx_piece c # ts" True] by simp
  finally show ?case by simp
qed

lemma parse_tail:
  "parse None (as, ts, q) st (tail_alternation @ rest) = parse None (as, tail_rx # ts, True) st rest"
  by (simp add: tail_alternation_def tail_rx_def js_def close_frame_def syntax_character_iff)

lemma parse_matcher_source:
  assumes "\<forall>c \<in> set from. \<not> is_line_terminator c"
  shows "parse_pattern (matcher_source from) = Some (matcher_rx from)"
proof (cases "from \<noteq> [] \<and> last from = 0x2F")
  case True
  have b: "\<forall>c \<in> set (butlast from). \<not> is_line_terminator c"
    using assms by (auto dest: in_set_butlastD)
  have "parse_pattern (matcher_source from)
          = parse None ([], [Bol], False) [] (concat (map piece (butlast from)) @ tail_alternation @ [])"
    using True by (simp add: parse_pattern_def matcher_source_def compile_from_pieces js_def)
  also have "\<dots> = parse None ([], rev (map rx_piece (butlast from)) @ [Bol],
                       (if butlast from = [] then False else True)) [] (tail_alternation @ [])"
    by (rule parse_pieces [OF b])
  also have "\<dots> = Some (mk_seq (Bol # map rx_piece (butlast from) @ [tail_rx]))"
    unfolding parse_tail by (simp add: close_frame_def)
  finally show ?thesis
    using True by (simp add: matcher_rx_def)
next
  case False
  have "parse_pattern (matcher_source from)
          = parse None ([], [Bol], False) [] (concat (map piece from) @ [])"
    using False by (auto simp: parse_pattern_def matcher_source_def compile_from_pieces js_def)
  also have "\<dots> = parse None ([], rev (map rx_piece from) @ [Bol], (if from = [] then False else True)) [] []"
    by (rule parse_pieces [OF assms])
  also have "\<dots> = Some (mk_seq (Bol # map rx_piece from))"
    by (simp add: close_frame_def)
  finally show ?thesis
    using False by (auto simp: matcher_rx_def)
qed

lemma groups_pieces: "sum_list (map (groups \<circ> rx_piece) xs) = count_list xs 0x2A"
  by (induction xs) (simp_all add: rx_piece_def)

lemma count_list_butlast_slash:
  "from \<noteq> [] \<Longrightarrow> last from = (0x2F :: code_unit) \<Longrightarrow> count_list (butlast from) 0x2A = count_list from 0x2A"
proof -
  assume a: "from \<noteq> []" "last from = (0x2F :: code_unit)"
  then have "from = butlast from @ [0x2F]"
    by (metis append_butlast_last_id)
  then have "count_list from 0x2A = count_list (butlast from @ [0x2F]) (0x2A :: code_unit)"
    by simp
  then show ?thesis
    by simp
qed

lemma groups_matcher_rx: "groups (matcher_rx from) = count_list from 0x2A"
  by (auto simp: matcher_rx_def groups_mk_seq groups_pieces tail_rx_def count_list_butlast_slash)

lemma rx_test_anchored:
  "rx_test (mk_seq (Bol # ts)) s \<longleftrightarrow>
     rx_exec False (mk_seq ts) 0 None s (replicate (groups (mk_seq ts)) None)
       (\<lambda>prev' s' caps. Some (caps, prev', s')) \<noteq> None"
  unfolding rx_test_def exec_def rx_exec_mk_seq_Cons list_ex_iff
  by (auto simp: groups_mk_seq)

lemma rx_piece_literal: "0x2A \<notin> set xs \<Longrightarrow> map rx_piece xs = map Chr xs"
  by (induction xs) (simp_all add: rx_piece_def)

lemma rx_exec_tail:
  "rx_exec False tail_rx g prev t caps (\<lambda>prev' s' caps. Some (caps, prev', s')) \<noteq> None
     \<longleftrightarrow> t = [] \<or> t = [0x2F] \<or> (\<exists>c u. t = 0x2F # c # u \<and> \<not> is_line_terminator c)"
  by (auto simp: tail_rx_def char_matcher_def or_else_def split: list.splits option.splits if_splits)

lemma non_space_line: "\<forall>c \<in> set xs. non_space c \<Longrightarrow> \<forall>c \<in> set xs. \<not> is_line_terminator c"
  by (simp add: non_space_def is_space_def)

lemma matcher_test_literal:
  assumes "\<forall>c \<in> set from. non_space c" "0x2A \<notin> set from" "from = [] \<or> last from \<noteq> 0x2F"
  shows "matcher_test from s \<longleftrightarrow> prefix from s"
proof -
  have "matcher_rx from = mk_seq (Bol # map Chr from @ [])"
    using assms by (auto simp: matcher_rx_def rx_piece_literal)
  then have "matcher_test from s \<longleftrightarrow> rx_test (mk_seq (Bol # map Chr from @ [])) s"
    using parse_matcher_source [OF non_space_line [OF assms(1)]]
    by (simp add: matcher_test_def)
  also have "\<dots> \<longleftrightarrow> prefix from s"
    unfolding rx_test_anchored rx_exec_literal by simp
  finally show ?thesis .
qed

lemma matcher_test_directory:
  assumes "\<forall>c \<in> set xs. non_space c" "0x2A \<notin> set xs"
  shows "matcher_test (xs @ [0x2F]) s
     \<longleftrightarrow> s = xs \<or> s = xs @ [0x2F] \<or> (\<exists>c u. s = xs @ 0x2F # c # u \<and> \<not> is_line_terminator c)"
proof -
  have n: "\<forall>c \<in> set (xs @ [0x2F]). \<not> is_line_terminator c"
    using non_space_line [OF assms(1)] by (simp add: is_line_terminator_def)
  have "matcher_rx (xs @ [0x2F]) = mk_seq (Bol # map Chr xs @ [tail_rx])"
    using assms by (simp add: matcher_rx_def rx_piece_literal)
  then have "matcher_test (xs @ [0x2F]) s \<longleftrightarrow> rx_test (mk_seq (Bol # map Chr xs @ [tail_rx])) s"
    using parse_matcher_source [OF n] by (simp add: matcher_test_def)
  also have "\<dots> \<longleftrightarrow> prefix xs s \<and>
      rx_exec False tail_rx 0 (if xs = [] then None else Some (last xs)) (drop (length xs) s)
        (replicate (groups (mk_seq (map Chr xs @ [tail_rx]))) None)
        (\<lambda>prev' s' caps. Some (caps, prev', s')) \<noteq> None"
    unfolding rx_test_anchored rx_exec_literal by (cases "prefix xs s") simp_all
  also have "\<dots> \<longleftrightarrow> prefix xs s \<and>
      (drop (length xs) s = [] \<or> drop (length xs) s = [0x2F]
       \<or> (\<exists>c u. drop (length xs) s = 0x2F # c # u \<and> \<not> is_line_terminator c))"
    unfolding rx_exec_tail ..
  also have "\<dots> \<longleftrightarrow> s = xs \<or> s = xs @ [0x2F]
       \<or> (\<exists>c u. s = xs @ 0x2F # c # u \<and> \<not> is_line_terminator c)"
    by (auto simp: prefix_def)
  finally show ?thesis .
qed

lemma rule_from_token:
  assumes "r \<in> set (redirect_rules t)"
  shows "rule_from r \<noteq> [] \<and> (\<forall>c \<in> set (rule_from r). non_space c)"
proof -
  from assms obtain l where l: "line_rule l = Some r"
    by (auto simp: redirect_rules_scan scan_rules_lines List.map_filter_def)
  then have "rule_from r = takeWhile non_space (dropWhile is_blank l)"
    by (rule line_rule_from)
  moreover from l have "takeWhile non_space (dropWhile is_blank l) \<noteq> []"
    by (auto simp: line_rule_def match_rule_def Let_def split: if_splits)
  ultimately show ?thesis
    by (auto dest: set_takeWhileD)
qed

lemma entry_matcher_source:
  "entry r = js ''[/'' @ matcher_source (rule_from r) @ js ''/,'' @ [QUOTE] @ rule_to r @ [QUOTE]
               @ js '','' @ status_literal (rule_status r) @ js '']''"
  by (simp add: entry_def matcher_source_def js_def)

text \<open>
  C1. For every rule of a table, the compiled \<^verbatim>\<open>from\<close> is the concatenation of the
  pieces of its code units (a trailing slash apart): a syntax character other than the
  wildcard marker is escaped, and the wildcard marker becomes \<^verbatim>\<open>(.*)\<close>. The matcher of
  the entry parses to the sequence of the patterns of these pieces, where each wildcard
  marker is a capture group around a greedy loop of the dot, at the place of the marker.
  So the matcher has as many capture groups as \<^verbatim>\<open>from\<close> has wildcard markers, none
  when there is no marker.
\<close>

theorem wildcards_become_capture_groups:
  assumes "r \<in> set (redirect_rules t)"
  shows "entry r = js ''[/'' @ matcher_source (rule_from r) @ js ''/,'' @ [QUOTE] @ rule_to r
                     @ [QUOTE] @ js '','' @ status_literal (rule_status r) @ js '']''
       \<and> compile_from (rule_from r) =
           (if last (rule_from r) = 0x2F
            then concat (map piece (butlast (rule_from r))) @ tail_alternation
            else concat (map piece (rule_from r)))
       \<and> parse_pattern (matcher_source (rule_from r)) = Some (matcher_rx (rule_from r))
       \<and> groups (matcher_rx (rule_from r)) = count_list (rule_from r) 0x2A"
proof -
  from assms have f: "rule_from r \<noteq> []" "\<forall>c \<in> set (rule_from r). non_space c"
    using rule_from_token by blast+
  from f(1) have "compile_from (rule_from r) =
           (if last (rule_from r) = 0x2F
            then concat (map piece (butlast (rule_from r))) @ tail_alternation
            else concat (map piece (rule_from r)))"
    by (simp add: compile_from_pieces)
  moreover have "parse_pattern (matcher_source (rule_from r)) = Some (matcher_rx (rule_from r))"
    using f(2) by (intro parse_matcher_source non_space_line)
  ultimately show ?thesis
    using entry_matcher_source groups_matcher_rx by blast
qed

theorem wildcards_become_capture_groups_witness:
  "compile_from (js ''/a/*/b.c*'') = BSL # js ''/a'' @ BSL # js ''/(.*)'' @ BSL # js ''/b'' @ BSL # js ''.c(.*)''
   \<and> parse_pattern (js ''^'' @ BSL # js ''/a'' @ BSL # js ''/(.*)'' @ BSL # js ''/b'' @ BSL # js ''.c(.*)'')
       = Some (Seq Bol (Seq (Chr 0x2F) (Seq (Chr 0x61) (Seq (Chr 0x2F) (Seq (Group (Star Dot))
           (Seq (Chr 0x2F) (Seq (Chr 0x62) (Seq (Chr 0x2E) (Seq (Chr 0x63) (Group (Star Dot)))))))))))
   \<and> groups (matcher_rx (js ''/a/*/b.c*'')) = 2"
proof -
  let ?r = "\<lparr>rule_from = js ''/a/*/b.c*'', rule_to = js ''/x/$1/$2'', rule_status = None\<rparr>"
  have r: "?r \<in> set (redirect_rules (js ''/a/*/b.c*  /x/$1/$2''))"
    by code_simp
  note t = wildcards_become_capture_groups [OF r, unfolded rule.select_convs]
  have c: "(if last (js ''/a/*/b.c*'') = 0x2F
            then concat (map piece (butlast (js ''/a/*/b.c*''))) @ tail_alternation
            else concat (map piece (js ''/a/*/b.c*'')))
           = BSL # js ''/a'' @ BSL # js ''/(.*)'' @ BSL # js ''/b'' @ BSL # js ''.c(.*)''"
    by code_simp
  have m: "matcher_rx (js ''/a/*/b.c*'')
       = Seq Bol (Seq (Chr 0x2F) (Seq (Chr 0x61) (Seq (Chr 0x2F) (Seq (Group (Star Dot))
           (Seq (Chr 0x2F) (Seq (Chr 0x62) (Seq (Chr 0x2E) (Seq (Chr 0x63) (Group (Star Dot))))))))))"
    by code_simp
  have n: "count_list (js ''/a/*/b.c*'') (0x2A :: code_unit) = 2"
    by code_simp
  have 1: "compile_from (js ''/a/*/b.c*'') = BSL # js ''/a'' @ BSL # js ''/(.*)'' @ BSL # js ''/b'' @ BSL # js ''.c(.*)''"
    unfolding t [THEN conjunct2, THEN conjunct1] by (rule c)
  have 2: "parse_pattern (matcher_source (js ''/a/*/b.c*'')) = Some (matcher_rx (js ''/a/*/b.c*''))"
    by (rule t [THEN conjunct2, THEN conjunct2, THEN conjunct1])
  have 3: "groups (matcher_rx (js ''/a/*/b.c*'')) = 2"
    unfolding t [THEN conjunct2, THEN conjunct2, THEN conjunct2] by (rule n)
  from 2 have "parse_pattern (js ''^'' @ BSL # js ''/a'' @ BSL # js ''/(.*)'' @ BSL # js ''/b'' @ BSL # js ''.c(.*)'')
       = Some (Seq Bol (Seq (Chr 0x2F) (Seq (Chr 0x61) (Seq (Chr 0x2F) (Seq (Group (Star Dot))
           (Seq (Chr 0x2F) (Seq (Chr 0x62) (Seq (Chr 0x2E) (Seq (Chr 0x63) (Group (Star Dot)))))))))))"
    unfolding m matcher_source_def 1 .
  with 1 3 show ?thesis
    by (intro conjI)
qed

lemma literal_body_piece:
  assumes "literal_body False u = Some (body, rest)" and "\<not> is_line_terminator c"
  shows "literal_body False (piece c @ u) = Some (piece c @ body, rest)"
  using assms
  by (auto simp: piece_def js_def syntax_character_iff is_line_terminator_def)

lemma literal_body_pieces:
  assumes "literal_body False u = Some (body, rest)" and "\<forall>c \<in> set xs. \<not> is_line_terminator c"
  shows "literal_body False (concat (map piece xs) @ u) = Some (concat (map piece xs) @ body, rest)"
  using assms(2)
proof (induction xs)
  case Nil
  show ?case using assms(1) by simp
next
  case (Cons c xs)
  then have "literal_body False (concat (map piece xs) @ u) = Some (concat (map piece xs) @ body, rest)"
    and "\<not> is_line_terminator c"
    by simp_all
  from literal_body_piece [OF this] show ?case
    by simp
qed

lemma literal_body_tail:
  "literal_body False (tail_alternation @ 0x2F # rest) = Some (tail_alternation, rest)"
  by (simp add: tail_alternation_def js_def is_line_terminator_def)

lemma entry_matcher_entry:
  assumes "\<forall>c \<in> set (rule_from r). non_space c"
  shows "entry_matcher (entry r) = Some (js ''^'' @ compile_from (rule_from r))"
proof -
  let ?rest = "js '','' @ [QUOTE] @ rule_to r @ [QUOTE] @ js '','' @ status_literal (rule_status r) @ js '']''"
  have e: "entry r = 0x5B # 0x2F # 0x5E # compile_from (rule_from r) @ 0x2F # ?rest"
    by (simp add: entry_def js_def)
  have l: "\<forall>c \<in> set (rule_from r). \<not> is_line_terminator c"
    using assms by (rule non_space_line)
  then have l': "\<forall>c \<in> set (butlast (rule_from r)). \<not> is_line_terminator c"
    by (auto dest: in_set_butlastD)
  have "literal_body False (compile_from (rule_from r) @ 0x2F # ?rest)
          = Some (compile_from (rule_from r), ?rest)"
  proof (cases "rule_from r \<noteq> [] \<and> last (rule_from r) = 0x2F")
    case True
    from literal_body_pieces [OF literal_body_tail l'] True show ?thesis
      by (simp add: compile_from_pieces)
  next
    case False
    have "literal_body False (0x2F # ?rest) = Some ([], ?rest)"
      by (simp add: is_line_terminator_def)
    from literal_body_pieces [OF this l] False show ?thesis
      by (auto simp: compile_from_pieces)
  qed
  then show ?thesis
    unfolding entry_matcher_def e by (simp add: is_line_terminator_def js_def)
qed

lemma entry_test_matcher:
  assumes "\<forall>c \<in> set (rule_from r). non_space c"
  shows "entry_test (entry r) s \<longleftrightarrow> matcher_test (rule_from r) s"
  by (simp add: entry_test_def entry_matcher_entry [OF assms] matcher_test_def matcher_source_def)

text \<open>
  C7. When the \<^verbatim>\<open>from\<close> of a rule of the table holds no wildcard marker and does not
  end with a slash, its entry opens with the literal \<^verbatim>\<open>/^\<close>, the escaped \<^verbatim>\<open>from\<close> and
  the closing slash, with no \<^verbatim>\<open>$\<close> before the closing slash. The matcher read from the
  text of the entry matches exactly the texts that start with \<^verbatim>\<open>from\<close>: it is anchored
  at the start and open at the end.
\<close>

theorem literal_matcher_matches_prefixes:
  assumes "r \<in> set (redirect_rules t)" and "0x2A \<notin> set (rule_from r)"
    and "last (rule_from r) \<noteq> 0x2F"
  shows "entry r \<in> set (entries t)
       \<and> entry r = js ''[/^'' @ concat (map piece (rule_from r)) @ js ''/,'' @ [QUOTE] @ rule_to r
                     @ [QUOTE] @ js '','' @ status_literal (rule_status r) @ js '']''
       \<and> entry_matcher (entry r) = Some (js ''^'' @ concat (map piece (rule_from r)))
       \<and> (entry_test (entry r) s \<longleftrightarrow> prefix (rule_from r) s)"
proof -
  from assms(1) have f: "rule_from r \<noteq> []" "\<forall>c \<in> set (rule_from r). non_space c"
    using rule_from_token by blast+
  have c: "compile_from (rule_from r) = concat (map piece (rule_from r))"
    using assms(3) by (simp add: compile_from_pieces)
  have 1: "entry r \<in> set (entries t)"
    using assms(1) by (simp add: entries_def)
  have 2: "entry r = js ''[/^'' @ concat (map piece (rule_from r)) @ js ''/,'' @ [QUOTE] @ rule_to r
                     @ [QUOTE] @ js '','' @ status_literal (rule_status r) @ js '']''"
    by (simp add: entry_def c)
  have 3: "entry_matcher (entry r) = Some (js ''^'' @ concat (map piece (rule_from r)))"
    using entry_matcher_entry [OF f(2)] by (simp only: c)
  have 4: "entry_test (entry r) s \<longleftrightarrow> prefix (rule_from r) s"
    unfolding entry_test_matcher [OF f(2)]
    using f(2) assms(2) assms(3) by (intro matcher_test_literal) simp_all
  from 1 2 3 4 show ?thesis
    by (intro conjI)
qed

theorem literal_matcher_matches_prefixes_witness:
  "entry \<lparr>rule_from = js ''/old'', rule_to = js ''/new'', rule_status = None\<rparr>
     \<in> set (entries (js ''/old /new''))
   \<and> entry \<lparr>rule_from = js ''/old'', rule_to = js ''/new'', rule_status = None\<rparr>
     = js ''[/^'' @ BSL # js ''/old/,'' @ [QUOTE] @ js ''/new'' @ [QUOTE] @ js '',undefined]''
   \<and> entry_test (entry \<lparr>rule_from = js ''/old'', rule_to = js ''/new'', rule_status = None\<rparr>)
         (js ''/oldies'')
   \<and> entry_test (entry \<lparr>rule_from = js ''/old'', rule_to = js ''/new'', rule_status = None\<rparr>)
         (js ''/old'')
   \<and> \<not> entry_test (entry \<lparr>rule_from = js ''/old'', rule_to = js ''/new'', rule_status = None\<rparr>)
         (js ''/new/old'')"
proof -
  let ?r = "\<lparr>rule_from = js ''/old'', rule_to = js ''/new'', rule_status = None\<rparr>"
  have r: "?r \<in> set (redirect_rules (js ''/old /new''))"
    by code_simp
  have b: "0x2A \<notin> set (rule_from ?r)"
    by (simp add: js_def)
  have c: "last (rule_from ?r) \<noteq> 0x2F"
    by (simp add: js_def)
  note t = literal_matcher_matches_prefixes [OF r b c, unfolded rule.select_convs]
  have p: "prefix (js ''/old'') (js ''/oldies'')" "prefix (js ''/old'') (js ''/old'')"
    "\<not> prefix (js ''/old'') (js ''/new/old'')"
    by (simp_all add: js_def)
  have e: "js ''[/^'' @ concat (map piece (js ''/old'')) @ js ''/,'' @ [QUOTE] @ js ''/new''
             @ [QUOTE] @ js '','' @ status_literal None @ js '']''
           = js ''[/^'' @ BSL # js ''/old/,'' @ [QUOTE] @ js ''/new'' @ [QUOTE] @ js '',undefined]''"
    by code_simp
  have 1: "entry ?r \<in> set (entries (js ''/old /new''))"
    by (rule t [THEN conjunct1])
  have 2: "entry ?r = js ''[/^'' @ BSL # js ''/old/,'' @ [QUOTE] @ js ''/new'' @ [QUOTE] @ js '',undefined]''"
    unfolding t [THEN conjunct2, THEN conjunct1] by (rule e)
  note q = t [THEN conjunct2, THEN conjunct2, THEN conjunct2]
  have 3: "entry_test (entry ?r) (js ''/oldies'')"
    unfolding q by (rule p(1))
  have 4: "entry_test (entry ?r) (js ''/old'')"
    unfolding q by (rule p(2))
  have 5: "\<not> entry_test (entry ?r) (js ''/new/old'')"
    unfolding q by (rule p(3))
  from 1 2 3 4 5 show ?thesis
    by (intro conjI)
qed

text \<open>
  C2. A trailing slash of \<^verbatim>\<open>from\<close> is replaced by the alternation
  \<^verbatim>\<open>(?:\/.|\/?$)\<close>: a slash and one more character, or an optional slash and the end
  of the text. Without wildcard markers the matcher then matches the directory path
  without its slash, with its slash, and with anything after the slash. For the table
  \<^verbatim>\<open>/old/ /new/ 301\<close> the status literal is \<^verbatim>\<open>301\<close>.
\<close>

theorem trailing_slash_alternation:
  assumes "\<forall>c \<in> set xs. non_space c"
  shows "compile_from (xs @ js ''/'') = concat (map piece xs) @ tail_alternation
       \<and> parse_pattern (matcher_source (xs @ js ''/''))
           = Some (mk_seq (Bol # map rx_piece xs
                           @ [Alt (Seq (Chr 0x2F) Dot) (Seq (Opt (Chr 0x2F)) Eol)]))
       \<and> (0x2A \<notin> set xs \<longrightarrow>
            (matcher_test (xs @ js ''/'') s \<longleftrightarrow>
               s = xs \<or> s = xs @ js ''/''
               \<or> (\<exists>c u. s = xs @ js ''/'' @ c # u \<and> \<not> is_line_terminator c)))
       \<and> entries (js ''/old/ /new/ 301'')
           = [js ''[/^'' @ BSL # js ''/old(?:'' @ BSL # js ''/.|'' @ BSL # js ''/?$)/,'' @ [QUOTE]
               @ js ''/new/'' @ [QUOTE] @ js '',301]'']"
proof -
  have n: "\<forall>c \<in> set (xs @ [0x2F]). \<not> is_line_terminator c"
    using non_space_line [OF assms] by (simp add: is_line_terminator_def)
  have 1: "compile_from (xs @ js ''/'') = concat (map piece xs) @ tail_alternation"
    by (simp add: compile_from_pieces js_def)
  have 2: "parse_pattern (matcher_source (xs @ js ''/''))
           = Some (mk_seq (Bol # map rx_piece xs
                           @ [Alt (Seq (Chr 0x2F) Dot) (Seq (Opt (Chr 0x2F)) Eol)]))"
    using parse_matcher_source [OF n] by (simp add: matcher_rx_def tail_rx_def js_def)
  have 3: "0x2A \<notin> set xs \<longrightarrow>
            (matcher_test (xs @ js ''/'') s \<longleftrightarrow>
               s = xs \<or> s = xs @ js ''/''
               \<or> (\<exists>c u. s = xs @ js ''/'' @ c # u \<and> \<not> is_line_terminator c))"
    using matcher_test_directory [OF assms, of s] by (simp add: js_def)
  have 4: "entries (js ''/old/ /new/ 301'')
           = [js ''[/^'' @ BSL # js ''/old(?:'' @ BSL # js ''/.|'' @ BSL # js ''/?$)/,'' @ [QUOTE]
               @ js ''/new/'' @ [QUOTE] @ js '',301]'']"
    by code_simp
  from 1 2 3 4 show ?thesis
    by (intro conjI)
qed

theorem trailing_slash_alternation_witness:
  "matcher_test (js ''/old/'') (js ''/old/'') \<and> matcher_test (js ''/old/'') (js ''/old'')
   \<and> matcher_test (js ''/old/'') (js ''/old/page'') \<and> \<not> matcher_test (js ''/old/'') (js ''/oldies'')"
proof -
  have a: "\<forall>c \<in> set (js ''/old''). non_space c"
    by (simp add: js_def non_space_def is_space_def is_line_terminator_def)
  have b: "0x2A \<notin> set (js ''/old'')"
    by (simp add: js_def)
  note t = trailing_slash_alternation [OF a, THEN conjunct2, THEN conjunct2, THEN conjunct1, THEN mp, OF b]
  have e: "js ''/old'' @ js ''/'' = js ''/old/''"
    by (simp add: js_def)
  have 1: "matcher_test (js ''/old/'') (js ''/old/'')"
    using t [of "js ''/old/''"] by (simp add: js_def)
  have 2: "matcher_test (js ''/old/'') (js ''/old'')"
    using t [of "js ''/old''"] by (simp add: js_def)
  have 3: "matcher_test (js ''/old/'') (js ''/old/page'')"
    using t [of "js ''/old/page''"] by (simp add: js_def is_line_terminator_def)
  have 4: "\<not> matcher_test (js ''/old/'') (js ''/oldies'')"
    using t [of "js ''/oldies''"] by (simp add: js_def)
  from 1 2 3 4 show ?thesis
    by (intro conjI)
qed

section \<open>Properties of the task graph\<close>

lemma completes_before_iff:
  "completes_before a b tr \<longleftrightarrow> (\<forall>pre post. tr = pre @ Start b # post \<longrightarrow> End a \<in> set pre)"
proof
  assume c: "completes_before a b tr"
  show "\<forall>pre post. tr = pre @ Start b # post \<longrightarrow> End a \<in> set pre"
  proof (intro allI impI)
    fix pre post
    assume tr: "tr = pre @ Start b # post"
    then have "End a \<in> set (takeWhile (\<lambda>e. e \<noteq> Start b) (pre @ Start b # post))"
      using c by (simp add: completes_before_def)
    moreover have "set (takeWhile (\<lambda>e. e \<noteq> Start b) (pre @ Start b # post)) \<subseteq> set pre"
      by (auto simp: takeWhile_append dest: set_takeWhileD)
    ultimately show "End a \<in> set pre"
      by blast
  qed
next
  assume r: "\<forall>pre post. tr = pre @ Start b # post \<longrightarrow> End a \<in> set pre"
  show "completes_before a b tr"
    unfolding completes_before_def
  proof
    assume "Start b \<in> set tr"
    then obtain pre post where s: "tr = pre @ Start b # post" "Start b \<notin> set pre"
      by (auto dest: split_list_first)
    then have "takeWhile (\<lambda>e. e \<noteq> Start b) tr = pre"
      by (simp add: takeWhile_append)
    with r s show "End a \<in> set (takeWhile (\<lambda>e. e \<noteq> Start b) tr)"
      by simp
  qed
qed

lemma completes_before_absent: "Start b \<notin> set tr \<Longrightarrow> completes_before a b tr"
  by (simp add: completes_before_def)

lemma completes_before_append:
  assumes "completes_before a b t1" "completes_before a b t2"
  shows "completes_before a b (t1 @ t2)"
  unfolding completes_before_iff
proof (intro allI impI)
  fix pre post
  assume e: "t1 @ t2 = pre @ Start b # post"
  then obtain us where
    "(t1 = pre @ us \<and> us @ t2 = Start b # post) \<or> (t1 @ us = pre \<and> t2 = us @ Start b # post)"
    by (auto simp: append_eq_append_conv2)
  then show "End a \<in> set pre"
  proof
    assume l: "t1 = pre @ us \<and> us @ t2 = Start b # post"
    show ?thesis
    proof (cases us)
      case Nil
      with l have "t2 = [] @ Start b # post" "pre = t1"
        by simp_all
      with assms(2) have "End a \<in> set []"
        unfolding completes_before_iff by blast
      then show ?thesis by simp
    next
      case (Cons u us')
      with l have "t1 = pre @ Start b # us'"
        by simp
      with assms(1) show ?thesis
        unfolding completes_before_iff by blast
    qed
  next
    assume r: "t1 @ us = pre \<and> t2 = us @ Start b # post"
    with assms(2) have "End a \<in> set us"
      unfolding completes_before_iff by blast
    with r show ?thesis by auto
  qed
qed

lemma shuffles_split:
  "pre @ x # post \<in> shuffles t1 t2 \<Longrightarrow>
     (\<exists>p q. t1 = p @ x # q \<and> set p \<subseteq> set pre) \<or> (\<exists>p q. t2 = p @ x # q \<and> set p \<subseteq> set pre)"
proof (induction pre arbitrary: t1 t2)
  case Nil
  then show ?case
    by (auto simp: Cons_in_shuffles_iff) (metis append_Nil empty_set empty_subsetI list.collapse)+
next
  case (Cons y pre)
  from Cons.prems have
    "(t1 \<noteq> [] \<and> hd t1 = y \<and> pre @ x # post \<in> shuffles (tl t1) t2)
     \<or> (t2 \<noteq> [] \<and> hd t2 = y \<and> pre @ x # post \<in> shuffles t1 (tl t2))"
    by (simp add: Cons_in_shuffles_iff)
  then show ?case
  proof
    assume a: "t1 \<noteq> [] \<and> hd t1 = y \<and> pre @ x # post \<in> shuffles (tl t1) t2"
    then have t1: "t1 = y # tl t1" by (cases t1) auto
    from a Cons.IH [of "tl t1" t2]
    consider p q where "tl t1 = p @ x # q" "set p \<subseteq> set pre"
      | p q where "t2 = p @ x # q" "set p \<subseteq> set pre"
      by blast
    then show ?thesis
    proof cases
      case 1
      then have "t1 = (y # p) @ x # q" "set (y # p) \<subseteq> set (y # pre)"
        using t1 by auto
      then show ?thesis by blast
    next
      case 2
      then have "set p \<subseteq> set (y # pre)" by auto
      with 2 show ?thesis by blast
    qed
  next
    assume a: "t2 \<noteq> [] \<and> hd t2 = y \<and> pre @ x # post \<in> shuffles t1 (tl t2)"
    then have t2: "t2 = y # tl t2" by (cases t2) auto
    from a Cons.IH [of t1 "tl t2"]
    consider p q where "t1 = p @ x # q" "set p \<subseteq> set pre"
      | p q where "tl t2 = p @ x # q" "set p \<subseteq> set pre"
      by blast
    then show ?thesis
    proof cases
      case 1
      then have "set p \<subseteq> set (y # pre)" by auto
      with 1 show ?thesis by blast
    next
      case 2
      then have "t2 = (y # p) @ x # q" "set (y # p) \<subseteq> set (y # pre)"
        using t2 by auto
      then show ?thesis by blast
    qed
  qed
qed

lemma completes_before_shuffles:
  assumes "completes_before a b t1" "completes_before a b t2" "t \<in> shuffles t1 t2"
  shows "completes_before a b t"
  unfolding completes_before_iff
proof (intro allI impI)
  fix pre post
  assume "t = pre @ Start b # post"
  with assms(3) have "pre @ Start b # post \<in> shuffles t1 t2"
    by simp
  from shuffles_split [OF this] assms(1,2) show "End a \<in> set pre"
    by (auto simp: completes_before_iff)
qed

lemma completes_before_wrap:
  assumes "completes_before a b tr" "e \<noteq> Start b" "e' \<noteq> Start b"
  shows "completes_before a b (e # tr @ [e'])"
proof -
  have "completes_before a b [e]" "completes_before a b [e']"
    using assms(2,3) by (simp_all add: completes_before_def)
  with assms(1) have "completes_before a b ([e] @ tr @ [e'])"
    by (intro completes_before_append)
  then show ?thesis by simp
qed

lemma par_runs_invariant:
  assumes "\<And>t1 t2 t. I t1 \<Longrightarrow> I t2 \<Longrightarrow> t \<in> shuffles t1 t2 \<Longrightarrow> I t" and "I []"
  shows "\<forall>R \<in> set Rs. \<forall>(t, ok) \<in> R. I t \<Longrightarrow> (t, ok) \<in> par_runs Rs \<Longrightarrow> I t"
proof (induction Rs arbitrary: t ok)
  case Nil
  then show ?case using assms(2) by simp
next
  case (Cons R Rs)
  from Cons.prems(2) obtain t1 ok1 t2 ok2 where
    m: "(t1, ok1) \<in> R" "(t2, ok2) \<in> par_runs Rs" "t \<in> shuffles t1 t2"
    by auto
  from m(1) Cons.prems(1) have "I t1" by auto
  moreover from m(2) Cons.prems(1) have "I t2" by (intro Cons.IH) auto
  ultimately show ?case using m(3) by (rule assms(1))
qed

lemma seq_runs_invariant:
  assumes "\<And>t1 t2. I t1 \<Longrightarrow> I t2 \<Longrightarrow> I (t1 @ t2)" and "I []"
  shows "\<forall>R \<in> set Rs. \<forall>(t, ok) \<in> R. I t \<Longrightarrow> (t, ok) \<in> seq_runs Rs \<Longrightarrow> I t"
proof (induction Rs arbitrary: t ok)
  case Nil
  then show ?case using assms(2) by simp
next
  case (Cons R Rs)
  from Cons.prems(2) obtain t1 ok1 where
    m: "(t1, ok1) \<in> R"
      "(t, ok) \<in> (if ok1 then (\<lambda>(t2, ok2). (t1 @ t2, ok2)) ` seq_runs Rs else {(t1, False)})"
    by auto
  from m(1) Cons.prems(1) have 1: "I t1" by auto
  show ?case
  proof (cases ok1)
    case True
    with m(2) obtain t2 ok2 where t2: "(t2, ok2) \<in> seq_runs Rs" "t = t1 @ t2"
      by auto
    from t2(1) Cons.prems(1) have "I t2" by (intro Cons.IH) auto
    with 1 t2(2) show ?thesis by (simp add: assms(1))
  next
    case False
    with m(2) 1 show ?thesis by simp
  qed
qed

lemma seq_runs_Cons_cases:
  assumes "(t, ok) \<in> seq_runs (R # Rs)"
  obtains (continue) t1 t2 where "(t1, True) \<in> R" "(t2, ok) \<in> seq_runs Rs" "t = t1 @ t2"
    | (stop) "(t, False) \<in> R" "\<not> ok"
  using assms by (auto split: if_splits)

lemma run_cases:
  assumes "(tr, ok) \<in> run reg fails (Suc k) n" and "reg n = Some t"
  obtains trs ok' e where "tr = Start n # trs @ [e]" "e = End n \<or> e = Fail n"
    "(trs, ok') \<in> seq_runs (map (\<lambda>st. par_runs (map (run reg fails k) st)) (stages t))"
    "ok \<longrightarrow> e = End n \<and> ok'"
  using assms by (auto split: if_splits)

lemma names_shuffles:
  "ename ` set t1 \<subseteq> P \<Longrightarrow> ename ` set t2 \<subseteq> P \<Longrightarrow> t \<in> shuffles t1 t2 \<Longrightarrow> ename ` set t \<subseteq> P"
  by (auto simp: set_shuffles)

lemma par_runs_names:
  assumes "\<forall>R \<in> set Rs. \<forall>(t, ok) \<in> R. ename ` set t \<subseteq> P" and "(t, ok) \<in> par_runs Rs"
  shows "ename ` set t \<subseteq> P"
proof (rule par_runs_invariant [where I = "\<lambda>t. ename ` set t \<subseteq> P", OF _ _ assms])
  show "ename ` set [] \<subseteq> P" by simp
next
  fix t1 t2 t
  assume "ename ` set t1 \<subseteq> P" "ename ` set t2 \<subseteq> P" "t \<in> shuffles t1 t2"
  then show "ename ` set t \<subseteq> P" by (rule names_shuffles)
qed

lemma seq_runs_names:
  assumes "\<forall>R \<in> set Rs. \<forall>(t, ok) \<in> R. ename ` set t \<subseteq> P" and "(t, ok) \<in> seq_runs Rs"
  shows "ename ` set t \<subseteq> P"
proof (rule seq_runs_invariant [where I = "\<lambda>t. ename ` set t \<subseteq> P", OF _ _ assms])
  show "ename ` set [] \<subseteq> P" by simp
next
  fix t1 t2 :: "event list"
  assume "ename ` set t1 \<subseteq> P" "ename ` set t2 \<subseteq> P"
  then show "ename ` set (t1 @ t2) \<subseteq> P" by auto
qed

lemma par_runs_completes:
  assumes "\<forall>R \<in> set Rs. \<forall>(t, ok) \<in> R. completes_before a b t" and "(t, ok) \<in> par_runs Rs"
  shows "completes_before a b t"
proof (rule par_runs_invariant [where I = "completes_before a b", OF _ _ assms])
  show "completes_before a b []" by (simp add: completes_before_def)
next
  fix t1 t2 t
  assume "completes_before a b t1" "completes_before a b t2" "t \<in> shuffles t1 t2"
  then show "completes_before a b t" by (rule completes_before_shuffles)
qed

lemma seq_runs_completes:
  assumes "\<forall>R \<in> set Rs. \<forall>(t, ok) \<in> R. completes_before a b t" and "(t, ok) \<in> seq_runs Rs"
  shows "completes_before a b t"
proof (rule seq_runs_invariant [where I = "completes_before a b", OF _ _ assms])
  show "completes_before a b []" by (simp add: completes_before_def)
next
  fix t1 t2
  assume "completes_before a b t1" "completes_before a b t2"
  then show "completes_before a b (t1 @ t2)" by (rule completes_before_append)
qed

lemma run_names:
  assumes "closed reg P"
  shows "n \<in> P \<Longrightarrow> (tr, ok) \<in> run reg fails k n \<Longrightarrow> ename ` set tr \<subseteq> P"
proof (induction k arbitrary: n tr ok)
  case 0
  then show ?case by simp
next
  case (Suc k)
  show ?case
  proof (cases "reg n")
    case None
    with Suc.prems show ?thesis by auto
  next
    case (Some t)
    from Suc.prems(2) Some obtain trs ok' e where
      tr: "tr = Start n # trs @ [e]" "e = End n \<or> e = Fail n"
      and trs: "(trs, ok') \<in> seq_runs (map (\<lambda>st. par_runs (map (run reg fails k) st)) (stages t))"
      by (rule run_cases)
    have members: "\<forall>st \<in> set (stages t). set st \<subseteq> P"
      using assms Suc.prems(1) Some by (auto simp: closed_def)
    have "\<forall>R \<in> set (map (\<lambda>st. par_runs (map (run reg fails k) st)) (stages t)).
            \<forall>(t, ok) \<in> R. ename ` set t \<subseteq> P"
    proof (clarsimp simp del: par_runs.simps)
      fix st u ok'' x
      assume st: "st \<in> set (stages t)" and u: "(u, ok'') \<in> par_runs (map (run reg fails k) st)"
        and x: "x \<in> set u"
      have "\<forall>R \<in> set (map (run reg fails k) st). \<forall>(t, ok) \<in> R. ename ` set t \<subseteq> P"
      proof clarsimp
        fix m v ok3 y
        assume m: "m \<in> set st" and v: "(v, ok3) \<in> run reg fails k m" and y: "y \<in> set v"
        from m members st have "m \<in> P" by auto
        from Suc.IH [OF this v] y show "ename y \<in> P" by auto
      qed
      then have "ename ` set u \<subseteq> P"
        using u by (rule par_runs_names)
      with x show "ename x \<in> P" by auto
    qed
    then have "ename ` set trs \<subseteq> P"
      using trs by (rule seq_runs_names)
    with tr Suc.prems(1) show ?thesis by auto
  qed
qed

lemma run_success: "(tr, True) \<in> run reg fails k n \<Longrightarrow> End n \<in> set tr"
  by (cases k; cases "reg n") (auto split: if_splits)

lemma par_runs_success:
  "(t, True) \<in> par_runs (map f ns) \<Longrightarrow> n \<in> set ns \<Longrightarrow> \<exists>t1. (t1, True) \<in> f n \<and> set t1 \<subseteq> set t"
proof (induction ns arbitrary: t)
  case Nil
  then show ?case by simp
next
  case (Cons m ns)
  from Cons.prems(1) obtain t1 t2 where
    m: "(t1, True) \<in> f m" "(t2, True) \<in> par_runs (map f ns)" "t \<in> shuffles t1 t2"
    by auto
  then have s: "set t = set t1 \<union> set t2" by (simp add: set_shuffles)
  show ?case
  proof (cases "n = m")
    case True
    with m(1) s show ?thesis by auto
  next
    case False
    with Cons.prems(2) have "n \<in> set ns" by simp
    from Cons.IH [OF m(2) this] s show ?thesis by auto
  qed
qed

lemma two_stages_in_order:
  assumes reg: "reg n = Some t" "stages t = [s1, s2]"
    and a: "a \<in> set s1" and P: "set s1 \<subseteq> P" "closed reg P" "b \<notin> P" and n: "n \<noteq> b"
    and tr: "(tr, ok) \<in> run reg fails (Suc k) n"
  shows "completes_before a b tr"
proof -
  let ?R1 = "par_runs (map (run reg fails k) s1)"
  let ?R2 = "par_runs (map (run reg fails k) s2)"
  from tr reg(1) obtain trs ok' e where
    t: "tr = Start n # trs @ [e]" "e = End n \<or> e = Fail n"
    and trs0: "(trs, ok') \<in> seq_runs (map (\<lambda>st. par_runs (map (run reg fails k) st)) (stages t))"
    by (rule run_cases)
  from trs0 have trs: "(trs, ok') \<in> seq_runs [?R1, ?R2]"
    by (simp only: reg(2) list.map)
  then obtain t1 ok1 where
    t1: "(t1, ok1) \<in> ?R1" "if ok1 then (\<exists>t2. trs = t1 @ t2) else trs = t1"
    by (cases rule: seq_runs_Cons_cases) auto
  have "\<forall>R \<in> set (map (run reg fails k) s1). \<forall>(t, ok) \<in> R. ename ` set t \<subseteq> P"
  proof clarsimp
    fix m v ok3 y
    assume m: "m \<in> set s1" and v: "(v, ok3) \<in> run reg fails k m" and y: "y \<in> set v"
    from m P(1) have "m \<in> P" by auto
    from run_names [OF P(2) this v] y show "ename y \<in> P" by auto
  qed
  then have names: "ename ` set t1 \<subseteq> P"
    using t1(1) by (rule par_runs_names)
  have nb: "Start b \<notin> set t1"
  proof
    assume "Start b \<in> set t1"
    then have "ename (Start b) \<in> P" using names by blast
    with P(3) show False by simp
  qed
  show ?thesis
  proof (cases ok1)
    case True
    with t1(2) obtain t2 where trs': "trs = t1 @ t2"
      by auto
    from True t1(1) have "(t1, True) \<in> ?R1" by simp
    from par_runs_success [OF this a] obtain u where
      u: "(u, True) \<in> run reg fails k a" "set u \<subseteq> set t1"
      by blast
    from run_success [OF u(1)] u(2) have ea: "End a \<in> set t1"
      by blast
    have "\<forall>x \<in> set (Start n # t1). x \<noteq> Start b"
      using nb n by auto
    then have "takeWhile (\<lambda>e. e \<noteq> Start b) ((Start n # t1) @ t2 @ [e])
                     = (Start n # t1) @ takeWhile (\<lambda>e. e \<noteq> Start b) (t2 @ [e])"
      by (intro takeWhile_append2) blast
    with ea show ?thesis
      by (simp add: completes_before_def t(1) trs')
  next
    case False
    with t1(2) have "trs = t1" by simp
    with nb n t have "Start b \<notin> set tr" by auto
    then show ?thesis
      by (rule completes_before_absent)
  qed
qed

lemma run_lift:
  assumes "reg n = Some t" "n \<noteq> b"
    and "\<forall>st \<in> set (stages t). \<forall>m \<in> set st. \<forall>(tr, ok) \<in> run reg fails k m. completes_before a b tr"
    and "(tr, ok) \<in> run reg fails (Suc k) n"
  shows "completes_before a b tr"
proof -
  from assms(4,1) obtain trs ok' e where
    t: "tr = Start n # trs @ [e]" "e = End n \<or> e = Fail n"
    and trs: "(trs, ok') \<in> seq_runs (map (\<lambda>st. par_runs (map (run reg fails k) st)) (stages t))"
    by (rule run_cases)
  have "\<forall>R \<in> set (map (\<lambda>st. par_runs (map (run reg fails k) st)) (stages t)).
          \<forall>(t, ok) \<in> R. completes_before a b t"
  proof (clarsimp simp del: par_runs.simps)
    fix st u ok''
    assume st: "st \<in> set (stages t)" and u: "(u, ok'') \<in> par_runs (map (run reg fails k) st)"
    have "\<forall>R \<in> set (map (run reg fails k) st). \<forall>(t, ok) \<in> R. completes_before a b t"
      using assms(3) st by auto
    then show "completes_before a b u"
      using u by (rule par_runs_completes)
  qed
  then have "completes_before a b trs"
    using trs by (rule seq_runs_completes)
  moreover have "Start n \<noteq> Start b" "e \<noteq> Start b"
    using t(2) assms(2) by auto
  ultimately show ?thesis
    unfolding t(1) by (rule completes_before_wrap)
qed

lemma par_runs_ConsI:
  "(t1, ok1) \<in> R \<Longrightarrow> (t2, ok2) \<in> par_runs Rs \<Longrightarrow> t \<in> shuffles t1 t2
     \<Longrightarrow> (t, ok1 \<and> ok2) \<in> par_runs (R # Rs)"
  unfolding par_runs.simps
  apply (rule UN_I [where a = "(t1, ok1)"], assumption)
  apply (simp only: prod.case)
  apply (rule UN_I [where a = "(t2, ok2)"], assumption)
  apply (simp only: prod.case)
  apply (rule imageI, assumption)
  done

lemma seq_runs_ConsI:
  "(t1, True) \<in> R \<Longrightarrow> (t2, ok2) \<in> seq_runs Rs \<Longrightarrow> (t1 @ t2, ok2) \<in> seq_runs (R # Rs)"
  unfolding seq_runs.simps
  apply (rule UN_I [where a = "(t1, True)"], assumption)
  apply (simp only: prod.case if_True)
  apply (rule image_eqI [where x = "(t2, ok2)"])
   apply (simp only: prod.case)
  apply assumption
  done

lemma run_successI:
  assumes "reg n = Some t"
    and "(trs, True) \<in> seq_runs (map (\<lambda>st. par_runs (map (run reg fails k) st)) (stages t))"
    and "\<not> (has_action t \<and> fails n)"
  shows "(Start n # trs @ [End n], True) \<in> run reg fails (Suc k) n"
  unfolding run.simps assms(1) option.case
  apply (rule image_eqI [where x = "(trs, True)"])
   apply (simp only: prod.case assms(3) simp_thms if_True)
  apply (rule assms(2))
  done


lemma append_in_shuffles: "xs @ ys \<in> shuffles xs ys"
  by (induction xs) (simp_all add: Cons_in_shuffles_leftI)

lemma those_Some:
  "those (map f xs) = Some ys \<Longrightarrow> list_all2 (\<lambda>x y. f x = Some y) xs ys"
  by (induction xs arbitrary: ys) (auto split: option.splits)

lemma par_runs_sequential:
  "list_all2 (\<lambda>m t. (t, True) \<in> f m) ms ts \<Longrightarrow> (concat ts, True) \<in> par_runs (map f ms)"
proof (induction rule: list_all2_induct)
  case Nil
  show ?case by simp
next
  case (Cons m ms t ts)
  have "t @ concat ts \<in> shuffles t (concat ts)"
    by (rule append_in_shuffles)
  from par_runs_ConsI [OF Cons.hyps(1) Cons.IH this] show ?case
    by simp
qed

lemma seq_runs_sequential:
  "list_all2 (\<lambda>s t. (t, True) \<in> g s) ss ts \<Longrightarrow> (concat ts, True) \<in> seq_runs (map g ss)"
proof (induction rule: list_all2_induct)
  case Nil
  show ?case by simp
next
  case (Cons s ss t ts)
  from seq_runs_ConsI [OF Cons.hyps(1) Cons.IH] show ?case
    by simp
qed

lemma sequential_run:
  "sequential reg k n = Some tr \<Longrightarrow> (tr, True) \<in> run reg (\<lambda>n. False) k n"
proof (induction k arbitrary: n tr)
  case 0
  then show ?case by simp
next
  case (Suc k)
  from Suc.prems obtain t trss where
    t: "reg n = Some t"
    and th: "those (map (\<lambda>st. those (map (sequential reg k) st)) (stages t)) = Some trss"
    and tr: "tr = Start n # concat (map concat trss) @ [End n]"
    by (auto split: option.splits)
  have "list_all2 (\<lambda>st trs. (concat trs, True) \<in> par_runs (map (run reg (\<lambda>n. False) k) st)) (stages t) trss"
  proof (rule list_all2_mono [OF those_Some [OF th]])
    fix st trs
    assume "those (map (sequential reg k) st) = Some trs"
    then have "list_all2 (\<lambda>m tr. sequential reg k m = Some tr) st trs"
      by (rule those_Some)
    then have "list_all2 (\<lambda>m tr. (tr, True) \<in> run reg (\<lambda>n. False) k m) st trs"
      by (rule list_all2_mono) (rule Suc.IH)
    then show "(concat trs, True) \<in> par_runs (map (run reg (\<lambda>n. False) k) st)"
      by (rule par_runs_sequential)
  qed
  then have "list_all2 (\<lambda>st u. (u, True) \<in> par_runs (map (run reg (\<lambda>n. False) k) st))
               (stages t) (map concat trss)"
    by (simp add: list_all2_map2)
  then have "(concat (map concat trss), True)
               \<in> seq_runs (map (\<lambda>st. par_runs (map (run reg (\<lambda>n. False) k) st)) (stages t))"
    by (rule seq_runs_sequential)
  then show ?case
    unfolding tr by (rule run_successI [where reg = reg and n = n, OF t]) simp
qed

lemma registry_build:
  "registry ''build'' =
     Some \<lparr>stages = [[''build-headers'', ''build-metadata'', ''build-redirects''],
                     [''build-css'', ''build-html'', ''build-images'', ''build-js'']],
           has_action = False\<rparr>"
  by (simp add: registry_def gulpfile_def)

lemma registry_build_js:
  "registry ''build-js'' =
     Some \<lparr>stages = [[''build-sw''], [''minify-js'', ''minify-sw'']], has_action = False\<rparr>"
  by (simp add: registry_def gulpfile_def)

lemma closed_first_stage:
  "closed registry {''build-headers'', ''build-metadata'', ''minify-json'', ''minify-xml'',
     ''build-redirects''}"
  by (simp add: closed_def registry_def gulpfile_def)

lemma closed_build_sw: "closed registry {''build-sw''}"
  by (simp add: closed_def registry_def gulpfile_def)

lemma closed_second_stage:
  "closed registry {''build-css'', ''minify-css'', ''build-html'', ''minify-html'',
     ''build-images'', ''build-app-icons'', ''build-favicon'', ''minify-images''}"
  by (simp add: closed_def registry_def gulpfile_def)


lemma no_start_in_family:
  assumes "closed registry P" "m \<in> P" "b \<notin> P" "(tr, ok) \<in> run registry fails k m"
  shows "completes_before a b tr"
proof (rule completes_before_absent)
  show "Start b \<notin> set tr"
  proof
    assume "Start b \<in> set tr"
    with run_names [OF assms(1,2,4)] have "ename (Start b) \<in> P"
      by blast
    with assms(3) show False by simp
  qed
qed

lemma build_js_in_order:
  assumes "(tr, ok) \<in> run registry fails k ''build-js''" "b = ''minify-js'' \<or> b = ''minify-sw''"
  shows "completes_before ''build-sw'' b tr"
proof (cases k)
  case 0
  with assms(1) show ?thesis by simp
next
  case (Suc k')
  show ?thesis
  proof (rule two_stages_in_order [OF registry_build_js _ _ _ closed_build_sw])
    show "(tr, ok) \<in> run registry fails (Suc k') ''build-js''"
      using assms(1) Suc by simp
  qed (use assms(2) in auto)
qed

text \<open>
  C8. In every run of \<^verbatim>\<open>build\<close>, whatever the interleaving inside a stage and
  whichever actions fail, a task of the second stage starts only after every task of the
  first stage has completed, and \<^verbatim>\<open>minify-js\<close> and \<^verbatim>\<open>minify-sw\<close> start only after
  \<^verbatim>\<open>build-sw\<close> has completed.
\<close>

theorem build_stages_in_order:
  assumes "(tr, ok) \<in> run registry fails k ''build''"
  shows "(\<forall>a \<in> {''build-headers'', ''build-metadata'', ''build-redirects''}.
          \<forall>b \<in> {''build-css'', ''build-html'', ''build-images'', ''build-js''}.
            completes_before a b tr)
       \<and> completes_before ''build-sw'' ''minify-js'' tr
       \<and> completes_before ''build-sw'' ''minify-sw'' tr"
proof (cases k)
  case 0
  with assms show ?thesis by simp
next
  case (Suc k')
  with assms have tr: "(tr, ok) \<in> run registry fails (Suc k') ''build''"
    by simp
  have 1: "completes_before a b tr"
    if "a \<in> {''build-headers'', ''build-metadata'', ''build-redirects''}"
      and "b \<in> {''build-css'', ''build-html'', ''build-images'', ''build-js''}" for a b
  proof (rule two_stages_in_order [OF registry_build _ _ _ closed_first_stage _ _ tr])
    show "a \<in> set [''build-headers'', ''build-metadata'', ''build-redirects'']"
      using that(1) by simp
  qed (use that(2) in auto)
  have 2: "completes_before ''build-sw'' b tr" if b: "b = ''minify-js'' \<or> b = ''minify-sw''" for b
  proof (rule run_lift [OF registry_build _ _ tr])
    show "''build'' \<noteq> b"
      using b by auto
    show "\<forall>st \<in> set (stages \<lparr>stages = [[''build-headers'', ''build-metadata'', ''build-redirects''],
                     [''build-css'', ''build-html'', ''build-images'', ''build-js'']],
           has_action = False\<rparr>). \<forall>m \<in> set st. \<forall>(tr, ok) \<in> run registry fails k' m.
             completes_before ''build-sw'' b tr"
    proof (intro ballI, clarify)
      fix st m u ok'
      assume st: "st \<in> set (stages \<lparr>stages = [[''build-headers'', ''build-metadata'', ''build-redirects''],
                     [''build-css'', ''build-html'', ''build-images'', ''build-js'']],
           has_action = False\<rparr>)" and m: "m \<in> set st" and u: "(u, ok') \<in> run registry fails k' m"
      from st m consider
        (first) "m \<in> {''build-headers'', ''build-metadata'', ''minify-json'', ''minify-xml'',
                        ''build-redirects''}"
        | (second) "m \<in> {''build-css'', ''minify-css'', ''build-html'', ''minify-html'',
                        ''build-images'', ''build-app-icons'', ''build-favicon'', ''minify-images''}"
        | (js) "m = ''build-js''"
        by auto
      then show "completes_before ''build-sw'' b u"
      proof cases
        case first
        show ?thesis
          by (rule no_start_in_family [OF closed_first_stage first _ u]) (use b in auto)
      next
        case second
        show ?thesis
          by (rule no_start_in_family [OF closed_second_stage second _ u]) (use b in auto)
      next
        case js
        with u b show ?thesis
          by (intro build_js_in_order) auto
      qed
    qed
  qed
  from 1 2 show ?thesis
    by blast
qed

theorem build_stages_in_order_witness:
  "(build_in_sequence, True) \<in> run registry (\<lambda>n. False) 3 ''build''
   \<and> Start ''build-css'' \<in> set build_in_sequence
   \<and> completes_before ''build-metadata'' ''build-css'' build_in_sequence
   \<and> Start ''minify-js'' \<in> set build_in_sequence
   \<and> completes_before ''build-sw'' ''minify-js'' build_in_sequence"
proof -
  have "sequential registry 3 ''build'' = Some build_in_sequence"
    by code_simp
  then have r: "(build_in_sequence, True) \<in> run registry (\<lambda>n. False) 3 ''build''"
    by (rule sequential_run)
  note t = build_stages_in_order [OF r]
  from t have 1: "completes_before ''build-metadata'' ''build-css'' build_in_sequence"
    by blast
  from t have 2: "completes_before ''build-sw'' ''minify-js'' build_in_sequence"
    by blast
  have 3: "Start ''build-css'' \<in> set build_in_sequence"
    "Start ''minify-js'' \<in> set build_in_sequence"
    by (simp_all add: build_in_sequence_def)
  from r 1 2 3 show ?thesis
    by (intro conjI)
qed

text \<open>
  C9 at the failing task. \<^verbatim>\<open>minify-css\<close> calls \<^verbatim>\<open>pump\<close> without the callback, so an
  error of its pipeline reaches no callback and nothing is logged; the other
  minification tasks, such as \<^verbatim>\<open>minify-html\<close>, pass \<^verbatim>\<open>cb\<close>, which logs the message.
\<close>

theorem minify_css_error_not_logged:
  "map_of gulpfile ''minify-css'' = Some (Action (Pump False))
   \<and> action_error (Pump False) \<lparr>message = ''boom''\<rparr> [] = ([], Completed)
   \<and> map (\<lambda>n. map_of gulpfile n)
        [''minify-html'', ''minify-images'', ''minify-js'', ''minify-json'', ''minify-sw'',
         ''minify-xml'']
      = replicate 6 (Some (Action (Pump True)))
   \<and> action_error (Pump True) \<lparr>message = ''boom''\<rparr> [] = ([''boom''], Completed)
   \<and> map (\<lambda>n. map_of gulpfile n)
        [''build-sw'', ''build-favicon'', ''build-headers'', ''build-redirects'']
      = replicate 4 (Some (Action Promise))
   \<and> action_error Promise \<lparr>message = ''boom''\<rparr> []
      = ([], Rejected \<lparr>message = ''boom''\<rparr>)"
  by (simp add: gulpfile_def cb_def numeral_eq_Suc)


end
